theory Spec2Isabelle
  imports Complex_Main "HOL-Library.Word" "HOL-Library.Log_Nat"
begin

section \<open>Shallow embedding of the Project A2 kernel benchmark\<close>

text \<open>
  Conventions of the embedding.
  \<^item> C++ \<open>int\<close> and \<open>size_t\<close> values are modelled as unbounded \<open>int\<close> and \<open>nat\<close>: the
    theorems speak about runs in which no index computation leaves the machine range.
  \<^item> A \<open>float*\<close> buffer is a list; \<open>rd\<close> and \<open>wr\<close> are the reads and writes at an
    \<open>int\<close> index. The theorems that depend on the buffer sizes carry the sizes as hypotheses.
  \<^item> Single-precision arithmetic is a parameter: a record \<open>float_ops\<close> with the value
    \<open>+0.0f\<close>, addition, multiplication and the fused multiply-add of \<open>_mm256_fmadd_ps\<close>.
    The kernels are written once over the record; exact arithmetic and a model of binary32
    rounding are two instances.
  \<^item> \<open>double\<close> values (density, timing samples) are modelled as real numbers.
  \<^item> The pseudo-random library of the C++ standard (\<open>std::mt19937_64\<close>,
    \<open>std::uniform_int_distribution\<close>, \<open>std::uniform_real_distribution\<close>) is not part of
    the repository; it is a parameter, the record \<open>random_lib\<close>.
  \<^item> Every \<open>for\<close> loop whose step is a run-time value is the combinator \<open>for_step\<close>,
    a partial function: a loop that does not return is the value \<open>None\<close>.
  \<^item> The OpenMP \<open>parallel for\<close> loops are modelled by their sequential order; their
    iterations write disjoint parts of the output.
\<close>

subsection \<open>Loops, buffers and arithmetic\<close>

text \<open>\<open>for (x = i; x < n; x += step) s = body x s\<close>; \<open>None\<close> when the loop never ends.\<close>

partial_function (option) for_step ::
  "int \<Rightarrow> int \<Rightarrow> int \<Rightarrow> (int \<Rightarrow> 's \<Rightarrow> 's option) \<Rightarrow> 's \<Rightarrow> 's option" where
  "for_step i n step body s =
     (if i < n
      then (case body i s of None \<Rightarrow> None | Some s' \<Rightarrow> for_step (i + step) n step body s')
      else Some s)"

definition rd :: "'a list \<Rightarrow> int \<Rightarrow> 'a" where
  "rd xs i = xs ! nat i"

definition wr :: "'a list \<Rightarrow> int \<Rightarrow> 'a \<Rightarrow> 'a list" where
  "wr xs i v = xs[nat i := v]"

text \<open>C++ integer division truncates towards zero.\<close>

definition idiv :: "int \<Rightarrow> int \<Rightarrow> int" where
  "idiv a b = sgn a * sgn b * (\<bar>a\<bar> div \<bar>b\<bar>)"

text \<open>\<open>std::round\<close> rounds halfway cases away from zero.\<close>

definition cpp_round :: "real \<Rightarrow> int" where
  "cpp_round x = (if 0 \<le> x then \<lfloor>x + 1 / 2\<rfloor> else - \<lfloor>- x + 1 / 2\<rfloor>)"

record 'a float_ops =
  fzero :: 'a
  fadd :: "'a \<Rightarrow> 'a \<Rightarrow> 'a"
  fmul :: "'a \<Rightarrow> 'a \<Rightarrow> 'a"
  fmadd :: "'a \<Rightarrow> 'a \<Rightarrow> 'a \<Rightarrow> 'a"

text \<open>Exact arithmetic in a ring such as the integers, the rationals or the reals.\<close>

definition exact_ops :: "'a::comm_ring_1 float_ops" where
  "exact_ops = \<lparr>fzero = 0, fadd = (+), fmul = (*), fmadd = (\<lambda>a b c. a * b + c)\<rparr>"

text \<open>
  A model of IEEE 754 binary32 with round-to-nearest, ties to even: the pair \<open>(m, e)\<close>
  is the number \<open>m * 2^e\<close>, with a significand of at most 24 bits. The exponent is not
  bounded, so the model is the machine's arithmetic for results in the normal range
  (no overflow, no subnormal result). Values are kept in canonical form (odd significand,
  or \<open>(0, 0)\<close>), so that equal numbers are equal pairs.
\<close>

type_synonym f32 = "int \<times> int"

function f32_canon :: "int \<Rightarrow> int \<Rightarrow> f32" where
  "f32_canon m e = (if m = 0 then (0, 0) else if even m then f32_canon (m div 2) (e + 1) else (m, e))"
  by pat_completeness auto
termination
  by (relation "measure (\<lambda>(m, e). nat \<bar>m\<bar>)") (auto elim!: evenE)

definition rne_shift :: "int \<Rightarrow> nat \<Rightarrow> int" where
  "rne_shift M s =
     (let q = M div 2 ^ s; r = M mod 2 ^ s; h = 2 ^ (s - 1)
      in if s = 0 then M
         else if r < h then q
         else if h < r then q + 1
         else if even q then q else q + 1)"

definition f32_round :: "int \<Rightarrow> int \<Rightarrow> f32" where
  "f32_round M e =
     (let L = bitlen \<bar>M\<bar>
      in if L \<le> 24 then f32_canon M e
         else f32_canon (rne_shift M (nat (L - 24))) (e + (L - 24)))"

definition f32_add :: "f32 \<Rightarrow> f32 \<Rightarrow> f32" where
  "f32_add x y =
     (case x of (m1, e1) \<Rightarrow> case y of (m2, e2) \<Rightarrow>
        let e = min e1 e2
        in f32_round (m1 * 2 ^ nat (e1 - e) + m2 * 2 ^ nat (e2 - e)) e)"

definition f32_mul :: "f32 \<Rightarrow> f32 \<Rightarrow> f32" where
  "f32_mul x y = (case x of (m1, e1) \<Rightarrow> case y of (m2, e2) \<Rightarrow> f32_round (m1 * m2) (e1 + e2))"

definition f32_fmadd :: "f32 \<Rightarrow> f32 \<Rightarrow> f32 \<Rightarrow> f32" where
  "f32_fmadd a b c =
     (case a of (m1, e1) \<Rightarrow> case b of (m2, e2) \<Rightarrow> case c of (m3, e3) \<Rightarrow>
        let e = min (e1 + e2) e3
        in f32_round (m1 * m2 * 2 ^ nat (e1 + e2 - e) + m3 * 2 ^ nat (e3 - e)) e)"

definition binary32_ops :: "f32 float_ops" where
  "binary32_ops = \<lparr>fzero = (0, 0), fadd = f32_add, fmul = f32_mul, fmadd = f32_fmadd\<rparr>"

text \<open>\<open>zero_fill(x, n)\<close>: \<open>memset\<close> of the first \<open>n\<close> floats to all-zero bits.\<close>

definition zero_fill :: "'a float_ops \<Rightarrow> 'a list \<Rightarrow> nat \<Rightarrow> 'a list" where
  "zero_fill ar x n = replicate n (fzero ar) @ drop n x"

subsection \<open>Dense GEMM kernel\<close>

text \<open>
  \<open>gemm_tiled_scalar\<close>: the loop nest \<open>ii, kk, jj, i, t, j\<close> of the source, with
  \<open>c[j - jj] += a * b[j - jj]\<close> for \<open>c = &C[i * n + jj]\<close> and \<open>b = &B[t * n + jj]\<close>.
\<close>

definition gemm_tiled_scalar ::
  "'a float_ops \<Rightarrow> 'a list \<Rightarrow> 'a list \<Rightarrow> 'a list \<Rightarrow> int \<Rightarrow> int \<Rightarrow> int \<Rightarrow> int \<Rightarrow> int \<Rightarrow> int
     \<Rightarrow> 'a list option" where
  "gemm_tiled_scalar ar A B C m k n tileM tileK tileN =
     for_step 0 m tileM (\<lambda>ii.
       for_step 0 k tileK (\<lambda>kk.
         for_step 0 n tileN (\<lambda>jj.
           let i_end = min m (ii + tileM);
               k_end = min k (kk + tileK);
               j_end = min n (jj + tileN)
           in for_step ii i_end 1 (\<lambda>i.
                for_step kk k_end 1 (\<lambda>t.
                  let a = rd A (i * k + t)
                  in for_step jj j_end 1 (\<lambda>j C.
                       Some (wr C ((i * n + jj) + (j - jj))
                               (fadd ar (rd C ((i * n + jj) + (j - jj)))
                                        (fmul ar a (rd B ((t * n + jj) + (j - jj))))))))))))
       C"

subsection \<open>Sparse-dense kernel (SpMM)\<close>

record 'v CSR =
  csr_m :: int
  csr_k :: int
  rowptr :: "int list"
  colidx :: "int list"
  csr_values :: "'v list"

datatype LayoutB = RowMajor | ColMajor

definition getB :: "LayoutB \<Rightarrow> 'a list \<Rightarrow> int \<Rightarrow> int \<Rightarrow> int \<Rightarrow> int \<Rightarrow> 'a" where
  "getB layoutB B n k col j =
     (if layoutB = RowMajor then rd B (col * n + j) else rd B (j * k + col))"

definition spmm_csr_scalar ::
  "'a float_ops \<Rightarrow> 'a CSR \<Rightarrow> 'a list \<Rightarrow> 'a list \<Rightarrow> int \<Rightarrow> int \<Rightarrow> LayoutB \<Rightarrow> 'a list option" where
  "spmm_csr_scalar ar A B C n jblock layoutB =
     (let m = csr_m A
      in for_step 0 m 1 (\<lambda>i.
           let p0 = rd (rowptr A) i;
               p1 = rd (rowptr A) (i + 1)
           in for_step 0 n jblock (\<lambda>j0.
                let j1 = min n (j0 + jblock)
                in for_step p0 p1 1 (\<lambda>p.
                     let col = rd (colidx A) p;
                         a = rd (csr_values A) p
                     in for_step j0 j1 1 (\<lambda>j C.
                          Some (wr C (i * n + j)
                                  (fadd ar (rd C (i * n + j))
                                           (fmul ar a (getB layoutB B n (csr_k A) col j))))))))
           (zero_fill ar C (nat m * nat n)))"

text \<open>The eight lanes of a \<open>__m256\<close> register: unaligned load, store, broadcast and FMA.\<close>

definition loadu8 :: "'a list \<Rightarrow> int \<Rightarrow> 'a list" where
  "loadu8 xs p = map (\<lambda>l. rd xs (p + int l)) [0..<8]"

definition storeu8 :: "'a list \<Rightarrow> int \<Rightarrow> 'a list \<Rightarrow> 'a list" where
  "storeu8 xs p v = fold (\<lambda>l ys. wr ys (p + int l) (v ! l)) [0..<8] xs"

definition set1 :: "'a \<Rightarrow> 'a list" where
  "set1 a = replicate 8 a"

definition fmadd8 :: "'a float_ops \<Rightarrow> 'a list \<Rightarrow> 'a list \<Rightarrow> 'a list \<Rightarrow> 'a list" where
  "fmadd8 ar a8 bv cv = map (\<lambda>l. fmadd ar (a8 ! l) (bv ! l) (cv ! l)) [0..<8]"

definition spmm_csr_avx2 ::
  "'a float_ops \<Rightarrow> 'a CSR \<Rightarrow> 'a list \<Rightarrow> 'a list \<Rightarrow> int \<Rightarrow> int \<Rightarrow> LayoutB \<Rightarrow> 'a list option" where
  "spmm_csr_avx2 ar A B C n jblock layoutB =
     (if layoutB \<noteq> RowMajor then spmm_csr_scalar ar A B C n jblock layoutB
      else
        let m = csr_m A
        in for_step 0 m 1 (\<lambda>i.
             let p0 = rd (rowptr A) i;
                 p1 = rd (rowptr A) (i + 1)
             in for_step 0 n jblock (\<lambda>j0.
                  let j1 = min n (j0 + jblock);
                      j_vec_end = j0 + idiv (j1 - j0) 8 * 8
                  in for_step p0 p1 1 (\<lambda>p C0.
                       let col = rd (colidx A) p;
                           a = rd (csr_values A) p;
                           a8 = set1 a
                       in case for_step j0 j_vec_end 8 (\<lambda>j C.
                                 Some (storeu8 C (i * n + j)
                                         (fmadd8 ar a8 (loadu8 B (col * n + j)) (loadu8 C (i * n + j)))))
                               C0 of
                            None \<Rightarrow> None
                          | Some C1 \<Rightarrow>
                              for_step j_vec_end j1 1 (\<lambda>j C.
                                Some (wr C (i * n + j)
                                        (fadd ar (rd C (i * n + j)) (fmul ar a (rd B (col * n + j))))))
                              C1)))
             (zero_fill ar C (nat m * nat n)))"

subsection \<open>The pseudo-random library\<close>

text \<open>
  \<open>seed_engine\<close> is the construction \<open>std::mt19937_64 rng(seed)\<close>, \<open>uniform_int lo hi\<close> one
  call of a \<open>std::uniform_int_distribution<int>(lo, hi)\<close> and \<open>uniform_real\<close> one call of the
  \<open>std::uniform_real_distribution<float>(-1.0f, 1.0f)\<close>, each returning the value drawn and
  the advanced engine. The C++ standard requires \<open>lo \<le> hi\<close> of the integer distribution and
  then promises a value in \<open>[lo, hi]\<close>: \<open>lib_ok\<close>. Constructing it with \<open>hi < lo\<close> is
  undefined behaviour; the model reports it as the error \<open>Bad_dist_range lo hi\<close>.
\<close>

record ('g, 'v) random_lib =
  seed_engine :: "64 word \<Rightarrow> 'g"
  uniform_int :: "int \<Rightarrow> int \<Rightarrow> 'g \<Rightarrow> int \<times> 'g"
  uniform_real :: "'g \<Rightarrow> 'v \<times> 'g"

definition lib_ok :: "('g, 'v) random_lib \<Rightarrow> bool" where
  "lib_ok L = (\<forall>lo hi g. lo \<le> hi \<longrightarrow> lo \<le> fst (uniform_int L lo hi g) \<and> fst (uniform_int L lo hi g) \<le> hi)"

text \<open>
  A small generator used to run the builder on concrete inputs: the engine is a 64-bit
  counter started at the seed, the integer distribution reduces the counter into the
  range, the real distribution returns the counter.
\<close>

definition counter_lib :: "(64 word, int) random_lib" where
  "counter_lib =
     \<lparr>seed_engine = (\<lambda>seed. seed),
      uniform_int = (\<lambda>lo hi g. (lo + uint g mod (hi - lo + 1), g + 1)),
      uniform_real = (\<lambda>g. (uint g, g + 1))\<rparr>"

subsection \<open>Buffers filled with pseudo-random data\<close>

definition fill_random :: "('g, 'v) random_lib \<Rightarrow> 'v list \<Rightarrow> nat \<Rightarrow> 64 word \<Rightarrow> 'v list" where
  "fill_random L x n seed =
     fst (fold (\<lambda>i (x, rng). case uniform_real L rng of (v, rng') \<Rightarrow> (x[i := v], rng'))
            [0..<n] (x, seed_engine L seed))"

subsection \<open>CSR builder\<close>

datatype build_error = Bad_dist_range int int | Length_error

text \<open>The rows under construction: the engine, \<open>cols\<close> and \<open>vals\<close>.\<close>

type_synonym ('g, 'v) rows = "'g \<times> int list list \<times> 'v list list"

text \<open>\<open>for (int i = 0; i < m; i++)\<close> over the rows, stopping at the first error.\<close>

fun for_rows :: "(int \<Rightarrow> 's \<Rightarrow> build_error + 's) \<Rightarrow> int list \<Rightarrow> 's \<Rightarrow> build_error + 's" where
  "for_rows body [] s = Inr s"
| "for_rows body (i # is) s =
     (case body i s of Inl e \<Rightarrow> Inl e | Inr s' \<Rightarrow> for_rows body is s')"

text \<open>
  The draw loop of the band and block-diagonal patterns:
  \<open>for (t = 0; t < target; t++) { c = bdist(rng); cols[i].push_back(c); vals[i].push_back(vdist(rng)); }\<close>
\<close>

fun draw_entries ::
  "('g, 'v) random_lib \<Rightarrow> int \<Rightarrow> int \<Rightarrow> nat \<Rightarrow> 'g \<times> int list \<times> 'v list \<Rightarrow> 'g \<times> int list \<times> 'v list" where
  "draw_entries L lo hi 0 s = s"
| "draw_entries L lo hi (Suc t) (rng, cs, vs) =
     (case uniform_int L lo hi rng of (c, rng1) \<Rightarrow>
      case uniform_real L rng1 of (v, rng2) \<Rightarrow>
        draw_entries L lo hi t (rng2, cs @ [c], vs @ [v]))"

text \<open>
  One row of a windowed pattern, from the window \<open>[lo, hi]\<close> on: the target count, the
  draws, then \<open>std::sort\<close> and \<open>erase(std::unique(...))\<close> on the columns (the values are
  left as drawn).
\<close>

definition window_row ::
  "('g, 'v) random_lib \<Rightarrow> int \<Rightarrow> real \<Rightarrow> int \<Rightarrow> int \<Rightarrow> int \<Rightarrow> ('g, 'v) rows \<Rightarrow> build_error + ('g, 'v) rows" where
  "window_row L k density i lo hi s =
     (case s of (rng, cols, vals) \<Rightarrow>
        let span = hi - lo + 1;
            target0 = cpp_round (real_of_int span * min 1 (density * real_of_int k / real_of_int span));
            target = max 1 (min span target0)
        in if hi < lo then Inl (Bad_dist_range lo hi)
           else case draw_entries L lo hi (nat target) (rng, rd cols i, rd vals i) of
                  (rng', cs, vs) \<Rightarrow> Inr (rng', wr cols i (remdups_adj (sort cs)), wr vals i vs))"

definition band_row ::
  "('g, 'v) random_lib \<Rightarrow> int \<Rightarrow> int \<Rightarrow> real \<Rightarrow> int \<Rightarrow> int \<Rightarrow> ('g, 'v) rows \<Rightarrow> build_error + ('g, 'v) rows" where
  "band_row L m k density bw i s =
     (let center = idiv (i * k) (max 1 m);
          lo = max 0 (center - bw);
          hi = min (k - 1) (center + bw)
      in window_row L k density i lo hi s)"

definition blockdiag_row ::
  "('g, 'v) random_lib \<Rightarrow> int \<Rightarrow> real \<Rightarrow> int \<Rightarrow> int \<Rightarrow> int \<Rightarrow> int \<Rightarrow> ('g, 'v) rows \<Rightarrow> build_error + ('g, 'v) rows" where
  "blockdiag_row L k density blocks bm bk i s =
     (let bi = min (blocks - 1) (idiv i bm);
          lo = bi * bk;
          hi = min (k - 1) (lo + bk - 1)
      in window_row L k density i lo hi s)"

text \<open>
  The draw loop of the uniform pattern, \<open>for (t = 0; t < nnz; t++)\<close>, and its body:
  \<open>r = rowdist(rng); c = coldist(rng); cols[r].push_back(c); vals[r].push_back(vdist(rng));\<close>
\<close>

definition uniform_draw :: "('g, 'v) random_lib \<Rightarrow> int \<Rightarrow> int \<Rightarrow> ('g, 'v) rows \<Rightarrow> ('g, 'v) rows" where
  "uniform_draw L m k s =
     (case s of (rng, cols, vals) \<Rightarrow>
      case uniform_int L 0 (m - 1) rng of (r, rng1) \<Rightarrow>
      case uniform_int L 0 (k - 1) rng1 of (c, rng2) \<Rightarrow>
      case uniform_real L rng2 of (v, rng3) \<Rightarrow>
        (rng3, wr cols r (rd cols r @ [c]), wr vals r (rd vals r @ [v])))"

fun uniform_draws :: "('g, 'v) random_lib \<Rightarrow> int \<Rightarrow> int \<Rightarrow> nat \<Rightarrow> ('g, 'v) rows \<Rightarrow> ('g, 'v) rows" where
  "uniform_draws L m k 0 s = s"
| "uniform_draws L m k (Suc t) s = uniform_draws L m k t (uniform_draw L m k s)"

text \<open>
  The loop over the sorted index vector that keeps the first entry of each run of equal
  columns: \<open>if (c == last) continue; last = c; rc2.push_back(c); rv2.push_back(rv[idx[t2]]);\<close>
\<close>

fun dedup_loop ::
  "int list \<Rightarrow> 'v list \<Rightarrow> nat list \<Rightarrow> int \<Rightarrow> int list \<times> 'v list \<Rightarrow> int list \<times> 'v list" where
  "dedup_loop rc rv [] last_c acc = acc"
| "dedup_loop rc rv (ix # idx) last_c (rc2, rv2) =
     (let c = rc ! ix
      in if c = last_c then dedup_loop rc rv idx last_c (rc2, rv2)
         else dedup_loop rc rv idx c (rc2 @ [c], rv2 @ [rv ! ix]))"

text \<open>
  One row of the uniform pattern: the fallback entry of an empty row, the index sort
  (\<open>std::sort\<close> with the comparison \<open>rc[a] < rc[b]\<close>, modelled by the stable \<open>sort_key\<close>:
  which of several equal columns comes first decides only the value kept), and the
  deduplication.
\<close>

definition uniform_row :: "('g, 'v) random_lib \<Rightarrow> int \<Rightarrow> int \<Rightarrow> ('g, 'v) rows \<Rightarrow> ('g, 'v) rows" where
  "uniform_row L k r s =
     (case s of (rng, cols, vals) \<Rightarrow>
        case (if rd cols r = []
              then (case uniform_int L 0 (k - 1) rng of (c, rng1) \<Rightarrow>
                    case uniform_real L rng1 of (v, rng2) \<Rightarrow>
                      (rng2, rd cols r @ [c], rd vals r @ [v]))
              else (rng, rd cols r, rd vals r)) of
          (rng', rc, rv) \<Rightarrow>
            let idx = sort_key (\<lambda>a. rc ! a) [0..<length rc]
            in case dedup_loop rc rv idx (- 1) ([], []) of
                 (rc2, rv2) \<Rightarrow> (rng', wr cols r rc2, wr vals r rv2))"

text \<open>The prefix sums \<open>rowptr[i] = total; total += cols[i].size()\<close> and \<open>rowptr[m] = total\<close>
  (\<open>total_n\<close> is the source's \<open>total\<close>).\<close>

fun rowptr_loop :: "int list list \<Rightarrow> nat \<Rightarrow> int list" where
  "rowptr_loop [] total_n = [int total_n]"
| "rowptr_loop (c # cs) total_n = int total_n # rowptr_loop cs (total_n + length c)"

text \<open>The copy loop: row \<open>i\<close> contributes \<open>cols[i][t]\<close> and \<open>vals[i][t]\<close> for \<open>t < cols[i].size()\<close>.\<close>

fun fill_entries :: "int list list \<Rightarrow> 'v list list \<Rightarrow> int list \<times> 'v list \<Rightarrow> int list \<times> 'v list" where
  "fill_entries (c # cs) (v # vs) (ci, va) = fill_entries cs vs (ci @ c, va @ take (length c) v)"
| "fill_entries cs vs acc = acc"

definition assemble :: "int \<Rightarrow> int \<Rightarrow> ('g, 'v) rows \<Rightarrow> 'v CSR" where
  "assemble m k s =
     (case s of (rng, cols, vals) \<Rightarrow>
        case fill_entries cols vals ([], []) of
          (ci, va) \<Rightarrow>
            \<lparr>csr_m = m, csr_k = k, rowptr = rowptr_loop cols 0, colidx = ci, csr_values = va\<rparr>)"

definition make_random_csr ::
  "('g, 'v) random_lib \<Rightarrow> int \<Rightarrow> int \<Rightarrow> real \<Rightarrow> string \<Rightarrow> 64 word \<Rightarrow> build_error + 'v CSR" where
  "make_random_csr L m k density pattern seed =
     (let rng = seed_engine L seed
      in if k - 1 < 0 then Inl (Bad_dist_range 0 (k - 1))
         else if m < 0 then Inl Length_error
         else
           let s0 = (rng, replicate (nat m) [], replicate (nat m) [])
           in if pattern = ''band'' then
                (let bw = max 1 (cpp_round (real_of_int k * min (20 / 100) (max (1 / 100) (density * 5))))
                 in case for_rows (band_row L m k density bw) [0..m - 1] s0 of
                      Inl e \<Rightarrow> Inl e | Inr s \<Rightarrow> Inr (assemble m k s))
              else if pattern = ''blockdiag'' then
                (let blocks = 8;
                     bm = max 1 (idiv m blocks);
                     bk = max 1 (idiv k blocks)
                 in case for_rows (blockdiag_row L k density blocks bm bk) [0..m - 1] s0 of
                      Inl e \<Rightarrow> Inl e | Inr s \<Rightarrow> Inr (assemble m k s))
              else
                (let expected = real_of_int m * real_of_int k * density;
                     nnz = max m (cpp_round expected)
                 in if m - 1 < 0 then Inl (Bad_dist_range 0 (m - 1))
                    else
                      let s1 = uniform_draws L m k (nat nnz) s0;
                          s2 = fold (uniform_row L k) [0..m - 1] s1
                      in Inr (assemble m k s2)))"

definition csr_nnz :: "'v CSR \<Rightarrow> nat" where
  "csr_nnz A = length (csr_values A)"

text \<open>The CSR invariant of the data model.\<close>

definition strictly_increasing :: "int list \<Rightarrow> bool" where
  "strictly_increasing xs = sorted_wrt (<) xs"

definition row_slice :: "'v CSR \<Rightarrow> nat \<Rightarrow> int list" where
  "row_slice A i =
     take (nat (rowptr A ! Suc i) - nat (rowptr A ! i)) (drop (nat (rowptr A ! i)) (colidx A))"

definition csr_invariant :: "'v CSR \<Rightarrow> bool" where
  "csr_invariant A =
     (let m = nat (csr_m A)
      in length (rowptr A) = m + 1 \<and>
         rowptr A ! 0 = 0 \<and>
         rowptr A ! m = int (length (colidx A)) \<and>
         length (colidx A) = length (csr_values A) \<and>
         (\<forall>i < m. rowptr A ! i < rowptr A ! Suc i) \<and>
         (\<forall>i < m. strictly_increasing (row_slice A i) \<and>
                  (\<forall>c \<in> set (row_slice A i). 0 \<le> c \<and> c < csr_k A)))"

subsection \<open>Stream-triad probe\<close>

text \<open>
  The kernel loop of \<open>stream_triad_bandwidth_gbps\<close>:
  \<open>for (it = 0; it < iters; it++) for (i = 0; i < N; i++) a[i] = b[i] + s * c[i];\<close>
\<close>

definition stream_triad_loop ::
  "'a float_ops \<Rightarrow> 'a \<Rightarrow> 'a list \<Rightarrow> 'a list \<Rightarrow> nat \<Rightarrow> int \<Rightarrow> 'a list \<Rightarrow> 'a list option" where
  "stream_triad_loop ar s b c N iters a =
     for_step 0 iters 1 (\<lambda>it.
       for_step 0 (int N) 1 (\<lambda>i a.
         Some (wr a i (fadd ar (rd b i) (fmul ar s (rd c i))))))
     a"

text \<open>
  The three buffers of the probe when the kernel loop has finished. \<open>a0\<close>, \<open>b0\<close> and
  \<open>c0\<close> are the contents of the freshly allocated buffers and \<open>s\<close> is the value of the
  literal \<open>1.1f\<close>. The probe itself returns only the bandwidth computed from the clock.
\<close>

definition stream_triad_buffers ::
  "('g, 'a) random_lib \<Rightarrow> 'a float_ops \<Rightarrow> 'a \<Rightarrow> 'a list \<Rightarrow> 'a list \<Rightarrow> 'a list \<Rightarrow> nat \<Rightarrow> int
     \<Rightarrow> ('a list \<times> 'a list \<times> 'a list) option" where
  "stream_triad_buffers L ar s a0 b0 c0 N iters =
     (let a = fill_random L a0 N 1;
          b = fill_random L b0 N 2;
          c = fill_random L c0 N 3
      in case stream_triad_loop ar s b c N iters a of
           None \<Rightarrow> None
         | Some a' \<Rightarrow> Some (a', b, c))"

subsection \<open>Trial loops of the driver\<close>

text \<open>
  What a trial loop does, in the order in which it does it: a call of \<open>zero_fill\<close>, a
  reading of the clock (with the number of the reading) or a call of the kernel.
\<close>

datatype trial_event = Zero_fill_call | Clock_read nat | Kernel_call

text \<open>
  The state of a trial loop: how often \<open>now_seconds\<close> and the kernel have been called,
  the output buffer, the vector \<open>call_times\<close>, and the history of the calls made so far.
  The monotonic clock is a function from the number of the reading to the time read.
\<close>

record 'c trial_state =
  now_calls :: nat
  kernel_calls :: nat
  Cbuf :: 'c
  call_times :: "real list"
  history :: "trial_event list"

definition now_seconds :: "(nat \<Rightarrow> real) \<Rightarrow> 'c trial_state \<Rightarrow> real \<times> 'c trial_state" where
  "now_seconds clock st =
     (clock (now_calls st),
      st\<lparr>now_calls := Suc (now_calls st), history := history st @ [Clock_read (now_calls st)]\<rparr>)"

definition call_kernel :: "('c \<Rightarrow> 'c option) \<Rightarrow> 'c trial_state \<Rightarrow> 'c trial_state option" where
  "call_kernel kern st =
     (case kern (Cbuf st) of
        None \<Rightarrow> None
      | Some C' \<Rightarrow> Some (st\<lparr>Cbuf := C', kernel_calls := Suc (kernel_calls st),
                            history := history st @ [Kernel_call]\<rparr>))"

definition call_zero_fill :: "'a float_ops \<Rightarrow> 'a list trial_state \<Rightarrow> 'a list trial_state" where
  "call_zero_fill ar st =
     st\<lparr>Cbuf := zero_fill ar (Cbuf st) (length (Cbuf st)), history := history st @ [Zero_fill_call]\<rparr>"

text \<open>\<open>t0 = now_seconds(); kernel(...); t1 = now_seconds(); call_times.push_back(t1 - t0);\<close>\<close>

definition timed_call ::
  "(nat \<Rightarrow> real) \<Rightarrow> ('c \<Rightarrow> 'c option) \<Rightarrow> 'c trial_state \<Rightarrow> 'c trial_state option" where
  "timed_call clock kern st =
     (case now_seconds clock st of (t0, st1) \<Rightarrow>
        case call_kernel kern st1 of
          None \<Rightarrow> None
        | Some st2 \<Rightarrow>
            (case now_seconds clock st2 of (t1, st3) \<Rightarrow>
               Some (st3\<lparr>call_times := call_times st3 @ [t1 - t0]\<rparr>)))"

text \<open>The GEMM branch of \<open>main\<close>: \<open>reps = 15\<close>, with \<open>zero_fill(C.ptr, C.count)\<close> before each timed call.\<close>

definition gemm_trials ::
  "(nat \<Rightarrow> real) \<Rightarrow> 'a float_ops \<Rightarrow> ('a list \<Rightarrow> 'a list option) \<Rightarrow> 'a list trial_state
     \<Rightarrow> 'a list trial_state option" where
  "gemm_trials clock ar kern st =
     (let reps = 15
      in for_step 0 reps 1 (\<lambda>r st. timed_call clock kern (call_zero_fill ar st)) st)"

text \<open>The SpMM branch of \<open>main\<close>: \<open>reps = 20\<close>.\<close>

definition spmm_trials ::
  "(nat \<Rightarrow> real) \<Rightarrow> ('c \<Rightarrow> 'c option) \<Rightarrow> 'c trial_state \<Rightarrow> 'c trial_state option" where
  "spmm_trials clock kern st =
     (let reps = 20
      in for_step 0 reps 1 (\<lambda>r st. timed_call clock kern st) st)"

subsection \<open>Statistics\<close>

definition pick :: "real list \<Rightarrow> real \<Rightarrow> real" where
  "pick v q =
     (let idx = q * real (length v - 1);
          i = nat \<lfloor>idx\<rfloor>;
          frac = idx - real i;
          a = v ! i;
          b = v ! min (i + 1) (length v - 1)
      in (a + frac * (b - a)) * 1000000)"

definition percentile_us :: "real list \<Rightarrow> real \<times> real \<times> real" where
  "percentile_us samples_sec =
     (if samples_sec = [] then (0, 0, 0)
      else (let v = sort samples_sec
            in (pick v (50 / 100), pick v (95 / 100), pick v (99 / 100))))"

text \<open>\<open>tmp = call_times; std::sort(tmp); seconds = tmp[tmp.size() / 2];\<close> in \<open>main\<close>.\<close>

definition reported_seconds :: "real list \<Rightarrow> real" where
  "reported_seconds call_times' =
     (let tmp = sort call_times' in tmp ! (length tmp div 2))"

text \<open>
  The statistics in the words of the specification: the median of a sample, and the
  value at a fractional rank by linear interpolation between the neighbouring ranks.
\<close>

definition spec_median :: "real list \<Rightarrow> real" where
  "spec_median xs =
     (let s = sort xs; n = length s
      in if odd n then s ! (n div 2) else (s ! (n div 2 - 1) + s ! (n div 2)) / 2)"

definition spec_rank_interp :: "real list \<Rightarrow> real \<Rightarrow> real" where
  "spec_rank_interp s r =
     (1 - (r - of_int \<lfloor>r\<rfloor>)) * s ! nat \<lfloor>r\<rfloor> + (r - of_int \<lfloor>r\<rfloor>) * s ! nat \<lceil>r\<rceil>"

subsection \<open>Predicates of the statements\<close>

text \<open>Every cell of the row-major \<open>m \<times> n\<close> output that lies in a row without non-zeros is \<open>+0.0f\<close>.\<close>

definition empty_rows_zero :: "'a float_ops \<Rightarrow> 'a CSR \<Rightarrow> int \<Rightarrow> 'a list \<Rightarrow> bool" where
  "empty_rows_zero ar A n C =
     (\<forall>i j. 0 \<le> i \<and> i < csr_m A \<and> rd (rowptr A) i = rd (rowptr A) (i + 1) \<and> 0 \<le> j \<and> j < n
        \<longrightarrow> rd C (i * n + j) = fzero ar)"

text \<open>
  The products that belong to the cell \<open>(i, j)\<close> of \<open>C\<close>, in the order \<open>t = 0, ..., k - 1\<close>:
  \<open>A[i * k + t] * B[t * n + j]\<close>.
\<close>

definition cell_products :: "'a float_ops \<Rightarrow> 'a list \<Rightarrow> 'a list \<Rightarrow> int \<Rightarrow> int \<Rightarrow> int \<Rightarrow> int \<Rightarrow> 'a list" where
  "cell_products ar A B k n i j = map (\<lambda>t. fmul ar (rd A (i * k + t)) (rd B (t * n + j))) [0..k - 1]"

text \<open>
  No addition rounds when the numbers \<open>ps\<close> are added, one after the other, to \<open>c\<close>: the
  number that a float stands for is given by \<open>v\<close>, and every sum that is computed stands
  for the sum of the numbers of its operands.
\<close>

fun no_rounding :: "('a \<Rightarrow> real) \<Rightarrow> 'a float_ops \<Rightarrow> 'a \<Rightarrow> 'a list \<Rightarrow> bool" where
  "no_rounding v ar c [] = True"
| "no_rounding v ar c (p # ps) = (v (fadd ar c p) = v c + v p \<and> no_rounding v ar (fadd ar c p) ps)"

text \<open>The number that a float of the binary32 model stands for.\<close>

definition f32_value :: "f32 \<Rightarrow> real" where
  "f32_value x =
     (case x of (m, e) \<Rightarrow> if 0 \<le> e then of_int m * 2 ^ nat e else of_int m / 2 ^ nat (- e))"

text \<open>
  The loop nest of \<open>gemm_tiled_scalar\<close> as the cell \<open>(i0, j0)\<close> of \<open>C\<close> sees it: the same six
  loops, with a body that changes the value \<open>v\<close> of the cell when \<open>i = i0\<close> and \<open>j = j0\<close> and
  does nothing otherwise.
\<close>

definition gemm_cell_nest ::
  "'a float_ops \<Rightarrow> 'a list \<Rightarrow> 'a list \<Rightarrow> int \<Rightarrow> int \<Rightarrow> int \<Rightarrow> int \<Rightarrow> int \<Rightarrow> int \<Rightarrow> int \<Rightarrow> int
     \<Rightarrow> 'a \<Rightarrow> 'a option" where
  "gemm_cell_nest ar A B m k n tileM tileK tileN i0 j0 v =
     for_step 0 m tileM (\<lambda>ii.
       for_step 0 k tileK (\<lambda>kk.
         for_step 0 n tileN (\<lambda>jj.
           for_step ii (min m (ii + tileM)) 1 (\<lambda>i.
             for_step kk (min k (kk + tileK)) 1 (\<lambda>t.
               for_step jj (min n (jj + tileN)) 1 (\<lambda>j v.
                 Some (if j = j0 \<and> i = i0
                       then fadd ar v (fmul ar (rd A (i0 * k + t)) (rd B (t * n + j0)))
                       else v)))))))
       v"

text \<open>Evaluation of the loops on concrete inputs.\<close>

declare for_step.simps [code]

text \<open>
  A finished row of the builder: at least one column, strictly increasing, inside
  \<open>[0, k)\<close>.
\<close>

definition good_row :: "int \<Rightarrow> int list \<Rightarrow> bool" where
  "good_row k cs = (cs \<noteq> [] \<and> sorted_wrt (<) cs \<and> (\<forall>c \<in> set cs. 0 \<le> c \<and> c < k))"

text \<open>
  The rows under construction: \<open>M\<close> rows, every column drawn so far inside \<open>[0, k)\<close>, and
  at least as many values as columns in every row.
\<close>

definition rows_in_range :: "int \<Rightarrow> nat \<Rightarrow> int list list \<Rightarrow> 'v list list \<Rightarrow> bool" where
  "rows_in_range k M cols vals =
     (length cols = M \<and> length vals = M \<and>
      (\<forall>i < M. (\<forall>c \<in> set (cols ! i). 0 \<le> c \<and> c < k) \<and> length (cols ! i) \<le> length (vals ! i)))"


text \<open>
  How a finished row of the uniform pattern relates to the columns drawn for it: the same
  set of columns, or a single fallback column when nothing was drawn.
\<close>

definition row_finished_from :: "int list \<Rightarrow> int list \<Rightarrow> bool" where
  "row_finished_from drawn row =
     (if drawn = [] then (\<exists>c. set row = {c}) else set row = set drawn)"



text \<open>
  What \<open>reps\<close> rounds of a trial loop have done between the states \<open>st\<close> and \<open>st'\<close>:
  \<open>reps\<close> calls of the kernel and \<open>2 * reps\<close> readings of the clock; the calls made are,
  in this order and \<open>reps\<close> times over, the preparation \<open>prep\<close>, a reading of the clock, the
  call of the kernel and a second reading of the clock; and the sample pushed for a round
  is the second reading of the round minus its first.
\<close>

definition timed_rounds ::
  "(nat \<Rightarrow> real) \<Rightarrow> trial_event list \<Rightarrow> nat \<Rightarrow> 'c trial_state \<Rightarrow> 'c trial_state \<Rightarrow> bool" where
  "timed_rounds clock prep reps st st' =
     (kernel_calls st' = kernel_calls st + reps \<and>
      now_calls st' = now_calls st + 2 * reps \<and>
      history st' = history st @
        concat (map (\<lambda>r. prep @ [Clock_read (now_calls st + 2 * r), Kernel_call,
                                   Clock_read (now_calls st + 2 * r + 1)]) [0..<reps]) \<and>
      call_times st' = call_times st @
        map (\<lambda>r. clock (now_calls st + 2 * r + 1) - clock (now_calls st + 2 * r)) [0..<reps])"
section \<open>Statistics: percentiles and the reported seconds\<close>

text \<open>
  C10. Called with an empty sample vector, \<open>percentile_us\<close> sets p50, p95 and p99 to 0.0
  and returns.
\<close>

theorem percentile_us_empty: "percentile_us [] = (0, 0, 0)"
  by (simp add: percentile_us_def)

lemma pick_interp:
  assumes q: "0 \<le> q" "q \<le> 1" and v: "v \<noteq> []"
  shows "pick v q = 1000000 * spec_rank_interp v (q * real (length v - 1))"
proof -
  define r where "r = q * real (length v - 1)"
  have r0: "0 \<le> r" using q by (simp add: r_def)
  have rN: "r \<le> real (length v - 1)"
    using q by (simp add: r_def mult_left_le_one_le)
  have fl: "real (nat \<lfloor>r\<rfloor>) = of_int \<lfloor>r\<rfloor>" using r0 by simp
  show ?thesis
  proof (cases "r = of_int \<lfloor>r\<rfloor>")
    case True
    then have "r - of_int \<lfloor>r\<rfloor> = 0" by simp
    then show ?thesis
      unfolding pick_def spec_rank_interp_def Let_def r_def[symmetric] fl by simp
  next
    case False
    then have lt: "of_int \<lfloor>r\<rfloor> < r"
      using of_int_floor_le [of r] by linarith
    have ce: "\<lceil>r\<rceil> = \<lfloor>r\<rfloor> + 1"
      using False ceiling_altdef [of r] by (simp only: if_False)
    have "of_int \<lfloor>r\<rfloor> < real (length v - 1)" using lt rN by linarith
    then have "\<lfloor>r\<rfloor> < int (length v - 1)" by linarith
    then have le: "nat \<lfloor>r\<rfloor> + 1 \<le> length v - 1" using r0 by linarith
    have n1: "nat \<lceil>r\<rceil> = nat \<lfloor>r\<rfloor> + 1" using ce r0 by (simp add: nat_add_distrib)
    have mn: "min (nat \<lfloor>r\<rfloor> + 1) (length v - 1) = nat \<lfloor>r\<rfloor> + 1" using le by simp
    show ?thesis
      unfolding pick_def spec_rank_interp_def Let_def r_def[symmetric] fl mn n1
      by (simp add: algebra_simps)
  qed
qed

lemma reported_seconds_odd:
  "odd (length xs) \<Longrightarrow> reported_seconds xs = spec_median xs"
  by (simp add: reported_seconds_def spec_median_def Let_def)

lemma reported_seconds_even:
  assumes "even (length xs)" "xs \<noteq> []"
  shows "spec_median xs \<le> reported_seconds xs"
proof -
  let ?s = "sort xs"
  let ?n = "length xs"
  have n: "0 < ?n div 2" using assms by (cases xs) (auto elim!: evenE)
  have "?s ! (?n div 2 - 1) \<le> ?s ! (?n div 2)"
    by (rule sorted_nth_mono) (use n in auto)
  then show ?thesis using assms
    by (simp add: reported_seconds_def spec_median_def Let_def)
qed

lemma reported_seconds_mem: "xs \<noteq> [] \<Longrightarrow> reported_seconds xs \<in> set xs"
proof -
  assume "xs \<noteq> []"
  then have "length xs div 2 < length (sort xs)" by (cases xs) auto
  then have "sort xs ! (length xs div 2) \<in> set (sort xs)" by (rule nth_mem)
  then show ?thesis by (simp add: reported_seconds_def Let_def)
qed

text \<open>
  C8, as stated, fails: for an even number of samples the reported seconds are the upper
  of the two middle samples, not their median. For the samples 1 and 2 the driver reports
  2 seconds; the median is 1.5.
\<close>

theorem reported_seconds_not_median: "reported_seconds [1, 2] \<noteq> spec_median [1, 2]"
  by (simp add: reported_seconds_def spec_median_def Let_def)

text \<open>
  C8, amended. For every non-empty population of samples the reported seconds are the
  sorted sample at index \<open>N div 2\<close>: one of the samples, equal to the median when \<open>N\<close> is
  odd and not below it when \<open>N\<close> is even. p50, p95 and p99 are the values at the
  fractional ranks \<open>q * (N - 1)\<close> of the sorted samples by linear interpolation, in
  microseconds.
\<close>

theorem summary_statistics:
  assumes "samples \<noteq> []"
  shows "reported_seconds samples = sort samples ! (length samples div 2) \<and>
         reported_seconds samples \<in> set samples \<and>
         (odd (length samples) \<longrightarrow> reported_seconds samples = spec_median samples) \<and>
         (even (length samples) \<longrightarrow> spec_median samples \<le> reported_seconds samples) \<and>
         percentile_us samples =
           (1000000 * spec_rank_interp (sort samples) (50 / 100 * real (length samples - 1)),
            1000000 * spec_rank_interp (sort samples) (95 / 100 * real (length samples - 1)),
            1000000 * spec_rank_interp (sort samples) (99 / 100 * real (length samples - 1)))"
proof -
  have a: "reported_seconds samples = sort samples ! (length samples div 2)"
    by (simp add: reported_seconds_def Let_def)
  have b: "reported_seconds samples \<in> set samples"
    using assms by (rule reported_seconds_mem)
  have c: "odd (length samples) \<longrightarrow> reported_seconds samples = spec_median samples"
    by (simp add: reported_seconds_odd)
  have d: "even (length samples) \<longrightarrow> spec_median samples \<le> reported_seconds samples"
    using assms by (simp add: reported_seconds_even)
  have ne: "sort samples \<noteq> []" using assms by (cases samples) auto
  have "pick (sort samples) q = 1000000 * spec_rank_interp (sort samples) (q * real (length samples - 1))"
    if "0 \<le> q" "q \<le> 1" for q
    using pick_interp [OF that ne] by simp
  then have e: "percentile_us samples =
           (1000000 * spec_rank_interp (sort samples) (50 / 100 * real (length samples - 1)),
            1000000 * spec_rank_interp (sort samples) (95 / 100 * real (length samples - 1)),
            1000000 * spec_rank_interp (sort samples) (99 / 100 * real (length samples - 1)))"
    using assms by (simp add: percentile_us_def Let_def)
  from a b c d e show ?thesis by blast
qed

theorem summary_statistics_witness:
  "[3, 1, 2 :: real] \<noteq> [] \<and> reported_seconds [3, 1, 2] = 2 \<and>
   percentile_us [3, 1, 2] = (2000000, 2900000, 2980000)"
  using summary_statistics [of "[3, 1, 2]"]
  by (simp add: spec_rank_interp_def)

section \<open>Loop rules\<close>

lemma for_step_done: "\<not> i < n \<Longrightarrow> for_step i n step body s = Some s"
  by (subst for_step.simps) simp

lemma for_step_unfold:
  "i < n \<Longrightarrow> body i s = Some t \<Longrightarrow> for_step i n step body s = for_step (i + step) n step body t"
  by (subst for_step.simps) simp

lemma for_step_None:
  "i < n \<Longrightarrow> body i s = None \<Longrightarrow> for_step i n step body s = None"
  by (subst for_step.simps) simp

lemma mod_step_shift:
  fixes i j step :: int
  assumes "(j - (i + step)) mod step = 0"
  shows "(j - i) mod step = 0"
proof -
  have "step dvd j - (i + step)" using assms by (simp only: dvd_eq_mod_eq_0)
  then have "step dvd (j - (i + step)) + step" by (simp only: dvd_add_triv_right_iff)
  moreover have "(j - (i + step)) + step = j - i" by simp
  ultimately have "step dvd j - i" by (simp only:)
  then show ?thesis by (simp only: dvd_eq_mod_eq_0)
qed

text \<open>
  An invariant of the loop body is an invariant of the loop, and a loop with a positive
  step whose body returns does return. The body is entered only at indices
  \<open>i, i + step, i + 2 * step, ...\<close> below \<open>n\<close>.
\<close>

lemma for_step_rule:
  assumes step: "0 < step"
    and init: "I s"
    and body: "\<And>j t. i \<le> j \<Longrightarrow> j < n \<Longrightarrow> (j - i) mod step = 0 \<Longrightarrow> I t
                 \<Longrightarrow> \<exists>t'. body j t = Some t' \<and> I t'"
  shows "\<exists>s'. for_step i n step body s = Some s' \<and> I s'"
  using init body
proof (induction "nat (n - i)" arbitrary: i s rule: less_induct)
  case less
  show ?case
  proof (cases "i < n")
    case False
    then show ?thesis using less.prems(1) by (simp add: for_step_done)
  next
    case True
    obtain t where t: "body i s = Some t" "I t"
      using less.prems(2) [of i s] True less.prems(1) by auto
    have dec: "nat (n - (i + step)) < nat (n - i)" using True step by linarith
    have "\<exists>s'. for_step (i + step) n step body t = Some s' \<and> I s'"
    proof (rule less.hyps [OF dec t(2)])
      fix j u
      assume j: "i + step \<le> j" "j < n" "(j - (i + step)) mod step = 0" and u: "I u"
      have a: "(j - i) mod step = 0" using j(3) by (rule mod_step_shift)
      have b: "i \<le> j" using j(1) step by linarith
      show "\<exists>t'. body j u = Some t' \<and> I t'"
        by (rule less.prems(2) [OF b j(2) a u])
    qed
    then show ?thesis
      using for_step_unfold [where body = body and s = s and step = step, OF True t(1)] by simp
  qed
qed

text \<open>The unit-step loop with an invariant that depends on the index.\<close>

lemma for_step_unit_rule:
  assumes le: "i \<le> n"
    and init: "P i s"
    and body: "\<And>j t. i \<le> j \<Longrightarrow> j < n \<Longrightarrow> P j t \<Longrightarrow> \<exists>t'. body j t = Some t' \<and> P (j + 1) t'"
  shows "\<exists>s'. for_step i n 1 body s = Some s' \<and> P n s'"
  using le init body
proof (induction "nat (n - i)" arbitrary: i s rule: less_induct)
  case less
  show ?case
  proof (cases "i < n")
    case False
    then have "i = n" using less.prems(1) by simp
    then show ?thesis using less.prems(2) by (simp add: for_step_done)
  next
    case True
    obtain t where t: "body i s = Some t" "P (i + 1) t"
      using less.prems(3) [of i s] True less.prems(2) by auto
    have dec: "nat (n - (i + 1)) < nat (n - i)" using True by linarith
    have "\<exists>s'. for_step (i + 1) n 1 body t = Some s' \<and> P n s'"
    proof (rule less.hyps [OF dec _ t(2)])
      show "i + 1 \<le> n" using True by simp
    next
      fix j u
      assume "i + 1 \<le> j" "j < n" "P j u"
      then show "\<exists>t'. body j u = Some t' \<and> P (j + 1) t'"
        using less.prems(3) [of j u] by simp
    qed
    then show ?thesis
      using for_step_unfold [where body = body and s = s and step = 1, OF True t(1)] by simp
  qed
qed

text \<open>The same for a loop that is only known to have returned.\<close>

lemma for_step_unit_returned:
  assumes le: "i \<le> n"
    and init: "P i s"
    and body: "\<And>j t t'. i \<le> j \<Longrightarrow> j < n \<Longrightarrow> P j t \<Longrightarrow> body j t = Some t' \<Longrightarrow> P (j + 1) t'"
    and run: "for_step i n 1 body s = Some s'"
  shows "P n s'"
  using le init body run
proof (induction "nat (n - i)" arbitrary: i s rule: less_induct)
  case less
  show ?case
  proof (cases "i < n")
    case False
    then have "i = n" using less.prems(1) by simp
    moreover have "s' = s" using less.prems(4) False by (simp add: for_step_done)
    ultimately show ?thesis using less.prems(2) by simp
  next
    case True
    show ?thesis
    proof (cases "body i s")
      case None
      then show ?thesis using less.prems(4) True by (simp add: for_step_None)
    next
      case (Some t)
      have Pt: "P (i + 1) t" by (rule less.prems(3) [OF _ True less.prems(2) Some]) simp
      have run': "for_step (i + 1) n 1 body t = Some s'"
        using less.prems(4) for_step_unfold [where body = body and s = s and step = 1, OF True Some]
        by simp
      have dec: "nat (n - (i + 1)) < nat (n - i)" using True by linarith
      show ?thesis
      proof (rule less.hyps [OF dec _ Pt _ run'])
        show "i + 1 \<le> n" using True by simp
      next
        fix j u u'
        assume "i + 1 \<le> j" "j < n" "P j u" "body j u = Some u'"
        then show "P (j + 1) u'" using less.prems(3) [of j u u'] by simp
      qed
    qed
  qed
qed

text \<open>
  A loop with any positive step and an invariant that depends on the index. The loop is
  left at the first index of \<open>i, i + step, ...\<close> that is not below \<open>n\<close>.
\<close>

lemma for_step_index_rule:
  assumes step: "0 < step"
    and init: "P i s"
    and body: "\<And>j t. i \<le> j \<Longrightarrow> j < n \<Longrightarrow> P j t \<Longrightarrow> \<exists>t'. body j t = Some t' \<and> P (j + step) t'"
  shows "\<exists>s' j. for_step i n step body s = Some s' \<and> i \<le> j \<and> n \<le> j \<and> P j s'"
  using init body
proof (induction "nat (n - i)" arbitrary: i s rule: less_induct)
  case less
  show ?case
  proof (cases "i < n")
    case False
    then have "for_step i n step body s = Some s \<and> i \<le> i \<and> n \<le> i \<and> P i s"
      using less.prems(1) by (simp add: for_step_done)
    then show ?thesis by blast
  next
    case True
    obtain t where t: "body i s = Some t" "P (i + step) t"
      using less.prems(2) [of i s] True less.prems(1) by auto
    have dec: "nat (n - (i + step)) < nat (n - i)" using True step by linarith
    have "\<exists>s' j. for_step (i + step) n step body t = Some s' \<and> i + step \<le> j \<and> n \<le> j \<and> P j s'"
    proof (rule less.hyps [OF dec t(2)])
      fix j u
      assume "i + step \<le> j" "j < n" "P j u"
      then show "\<exists>t'. body j u = Some t' \<and> P (j + step) t'"
        using less.prems(2) [of j u] step by simp
    qed
    then obtain s' j where r: "for_step (i + step) n step body t = Some s'" "i + step \<le> j" "n \<le> j" "P j s'"
      by blast
    have "for_step i n step body s = Some s'"
      using for_step_unfold [where body = body and s = s and step = step, OF True t(1)] r(1) by simp
    moreover have "i \<le> j" using r(2) step by simp
    ultimately show ?thesis using r(3,4) by blast
  qed
qed

text \<open>Two runs of a loop from related states, with bodies that keep the relation.\<close>

lemma for_step_rel:
  assumes step: "0 < step"
    and init: "R s t"
    and body: "\<And>j u v. i \<le> j \<Longrightarrow> j < n \<Longrightarrow> R u v \<Longrightarrow> rel_option R (body j u) (body' j v)"
  shows "rel_option R (for_step i n step body s) (for_step i n step body' t)"
  using init body
proof (induction "nat (n - i)" arbitrary: i s t rule: less_induct)
  case less
  show ?case
  proof (cases "i < n")
    case False
    then show ?thesis using less.prems(1) by (simp add: for_step_done)
  next
    case True
    have b: "rel_option R (body i s) (body' i t)"
      using less.prems(2) [of i s t] True less.prems(1) by simp
    show ?thesis
    proof (cases "body i s")
      case None
      then have "body' i t = None" using b by (cases "body' i t") auto
      then show ?thesis using None True
        by (simp add: for_step_None)
    next
      case (Some u)
      then obtain v where v: "body' i t = Some v" "R u v"
        using b by (cases "body' i t") auto
      have dec: "nat (n - (i + step)) < nat (n - i)" using True step by linarith
      have "rel_option R (for_step (i + step) n step body u) (for_step (i + step) n step body' v)"
      proof (rule less.hyps [OF dec v(2)])
        fix j u' v'
        assume "i + step \<le> j" "j < n" "R u' v'"
        then show "rel_option R (body j u') (body' j v')"
          using less.prems(2) [of j u' v'] step by simp
      qed
      then show ?thesis
        using for_step_unfold [where body = body and s = s and step = step, OF True Some]
          for_step_unfold [where body = body' and s = t and step = step, OF True v(1)]
        by simp
    qed
  qed
qed

section \<open>SpMM: the output is overwritten\<close>

lemma idiv_nonneg: "0 \<le> a \<Longrightarrow> 0 < b \<Longrightarrow> idiv a b = a div b"
  by (cases "a = 0") (simp_all add: idiv_def sgn_if)

lemma zero_fill_whole: "length C = N \<Longrightarrow> zero_fill ar C N = replicate N (fzero ar)"
  by (simp add: zero_fill_def)

lemma row_cells_disjoint:
  fixes i i' j j' n :: int
  assumes "i < i'" "j < n" "0 \<le> j'" "0 \<le> n"
  shows "i * n + j < i' * n + j'"
proof -
  have "i * n + j < i * n + n" using assms by simp
  also have "\<dots> = (i + 1) * n" by (simp add: algebra_simps)
  also have "\<dots> \<le> i' * n" using assms(1,4) by (intro mult_right_mono) simp_all
  finally show ?thesis using assms by linarith
qed

lemma cell_index_neq:
  fixes i i' j j' n :: int
  assumes "i \<noteq> i'" "0 \<le> j" "j < n" "0 \<le> j'" "j' < n"
  shows "i * n + j \<noteq> i' * n + j'"
proof (cases "i < i'")
  case True
  then show ?thesis using row_cells_disjoint [of i i' j n j'] assms by simp
next
  case False
  then have "i' < i" using assms by simp
  then show ?thesis using row_cells_disjoint [of i' i j' n j] assms by simp
qed

lemma cell_index_nonneg:
  fixes i j n :: int
  shows "0 \<le> i \<Longrightarrow> 0 \<le> n \<Longrightarrow> 0 \<le> j \<Longrightarrow> 0 \<le> i * n + j"
  by simp

text \<open>A write into a row that has non-zeros leaves the rows without non-zeros untouched.\<close>

lemma empty_rows_zero_wr:
  assumes inv: "empty_rows_zero ar A n t"
    and i: "0 \<le> i" "rd (rowptr A) i \<noteq> rd (rowptr A) (i + 1)"
    and j: "0 \<le> j" "j < n"
  shows "empty_rows_zero ar A n (wr t (i * n + j) v)"
  unfolding empty_rows_zero_def
proof (intro allI impI)
  fix i' j'
  assume c: "0 \<le> i' \<and> i' < csr_m A \<and> rd (rowptr A) i' = rd (rowptr A) (i' + 1) \<and> 0 \<le> j' \<and> j' < n"
  then have ne: "i \<noteq> i'" using i by auto
  have n0: "0 \<le> n" using j by simp
  have "i * n + j \<noteq> i' * n + j'" using cell_index_neq [OF ne j] c by simp
  moreover have "0 \<le> i * n + j" using i j n0 by simp
  moreover have "0 \<le> i' * n + j'" using c n0 by simp
  ultimately have "nat (i * n + j) \<noteq> nat (i' * n + j')" by linarith
  then have "rd (wr t (i * n + j) v) (i' * n + j') = rd t (i' * n + j')"
    by (simp add: rd_def wr_def)
  then show "rd (wr t (i * n + j) v) (i' * n + j') = fzero ar"
    using inv c unfolding empty_rows_zero_def by simp
qed

lemma empty_rows_zero_lanes:
  assumes inv: "empty_rows_zero ar A n t"
    and i: "0 \<le> i" "rd (rowptr A) i \<noteq> rd (rowptr A) (i + 1)"
    and j: "0 \<le> j" "\<forall>l \<in> set ls. j + int l < n"
  shows "empty_rows_zero ar A n (fold (\<lambda>l ys. wr ys (i * n + j + int l) (v ! l)) ls t) \<and>
         length (fold (\<lambda>l ys. wr ys (i * n + j + int l) (v ! l)) ls t) = length t"
  using inv j(2)
proof (induction ls arbitrary: t)
  case Nil
  then show ?case by simp
next
  case (Cons l ls)
  have "empty_rows_zero ar A n (wr t (i * n + (j + int l)) (v ! l))"
    by (rule empty_rows_zero_wr [OF Cons.prems(1) i]) (use j Cons.prems(2) in auto)
  then have "empty_rows_zero ar A n (wr t (i * n + j + int l) (v ! l))"
    by (simp add: add.assoc)
  from Cons.IH [OF this] Cons.prems(2) show ?case by (simp add: wr_def)
qed

lemma length_wr: "length (wr xs i v) = length xs"
  by (simp add: wr_def)

lemma length_storeu8: "length (storeu8 t p v) = length t"
proof -
  have "length (fold (\<lambda>l ys. wr ys (p + int l) (v ! l)) ls t) = length t" for ls
    by (induction ls arbitrary: t) (simp_all add: length_wr)
  then show ?thesis by (simp add: storeu8_def)
qed

lemma empty_rows_zero_storeu8:
  assumes "empty_rows_zero ar A n t" "0 \<le> i" "rd (rowptr A) i \<noteq> rd (rowptr A) (i + 1)"
    and "0 \<le> j" "j + 8 \<le> n"
  shows "empty_rows_zero ar A n (storeu8 t (i * n + j) v) \<and> length (storeu8 t (i * n + j) v) = length t"
  unfolding storeu8_def
  by (rule empty_rows_zero_lanes [OF assms(1-4)]) (use assms(5) in auto)

lemma vector_end_bound:
  fixes j j0 j1 :: int
  assumes "j0 \<le> j" "(j - j0) mod 8 = 0" "j < j0 + idiv (j1 - j0) 8 * 8" "j0 \<le> j1"
  shows "j + 8 \<le> j1"
proof -
  have "idiv (j1 - j0) 8 = (j1 - j0) div 8" using assms(4) by (simp add: idiv_nonneg)
  then show ?thesis using assms by presburger
qed

lemma vector_end_lower:
  fixes j0 j1 :: int
  assumes "j0 \<le> j1"
  shows "j0 \<le> j0 + idiv (j1 - j0) 8 * 8"
proof -
  have "idiv (j1 - j0) 8 = (j1 - j0) div 8" using assms by (simp add: idiv_nonneg)
  then show ?thesis using assms by presburger
qed

text \<open>The scalar kernel returns, and keeps the size and the zero rows of a zero-filled output.\<close>

lemma spmm_csr_scalar_zero_rows:
  assumes n: "1 \<le> n" and jb: "1 \<le> jblock"
  shows "\<exists>R. spmm_csr_scalar ar A B C n jblock layoutB = Some R \<and>
             length R = length (zero_fill ar C (nat (csr_m A) * nat n)) \<and>
             (empty_rows_zero ar A n (zero_fill ar C (nat (csr_m A) * nat n)) \<longrightarrow> empty_rows_zero ar A n R)"
proof -
  define Z where "Z = zero_fill ar C (nat (csr_m A) * nat n)"
  define I where "I = (\<lambda>t. length t = length Z \<and> (empty_rows_zero ar A n Z \<longrightarrow> empty_rows_zero ar A n t))"
  have "\<exists>R. spmm_csr_scalar ar A B C n jblock layoutB = Some R \<and> I R"
    unfolding spmm_csr_scalar_def Let_def Z_def [symmetric]
  proof (rule for_step_rule [where I = I])
    show "(0::int) < 1" by simp
    show "I Z" by (simp add: I_def)
  next
    fix i t
    assume i: "0 \<le> i" "i < csr_m A" and t: "I t"
    show "\<exists>t'. for_step 0 n jblock
                (\<lambda>j0. for_step (rd (rowptr A) i) (rd (rowptr A) (i + 1)) 1
                   (\<lambda>p. for_step j0 (min n (j0 + jblock)) 1
                      (\<lambda>j C. Some (wr C (i * n + j)
                          (fadd ar (rd C (i * n + j))
                             (fmul ar (rd (csr_values A) p) (getB layoutB B n (csr_k A) (rd (colidx A) p) j)))))))
                t = Some t' \<and> I t'"
    proof (rule for_step_rule [where I = I])
      show "0 < jblock" using jb by simp
      show "I t" by (rule t)
    next
      fix j0 u
      assume j0: "0 \<le> j0" "j0 < n" and u: "I u"
      show "\<exists>t'. for_step (rd (rowptr A) i) (rd (rowptr A) (i + 1)) 1
                  (\<lambda>p. for_step j0 (min n (j0 + jblock)) 1
                     (\<lambda>j C. Some (wr C (i * n + j)
                         (fadd ar (rd C (i * n + j))
                            (fmul ar (rd (csr_values A) p) (getB layoutB B n (csr_k A) (rd (colidx A) p) j))))))
                  u = Some t' \<and> I t'"
      proof (rule for_step_rule [where I = I])
        show "(0::int) < 1" by simp
        show "I u" by (rule u)
      next
        fix p v
        assume p: "rd (rowptr A) i \<le> p" "p < rd (rowptr A) (i + 1)" and v: "I v"
        have ne: "rd (rowptr A) i \<noteq> rd (rowptr A) (i + 1)" using p by simp
        show "\<exists>t'. for_step j0 (min n (j0 + jblock)) 1
                    (\<lambda>j C. Some (wr C (i * n + j)
                        (fadd ar (rd C (i * n + j))
                           (fmul ar (rd (csr_values A) p) (getB layoutB B n (csr_k A) (rd (colidx A) p) j)))))
                    v = Some t' \<and> I t'"
        proof (rule for_step_rule [where I = I])
          show "(0::int) < 1" by simp
          show "I v" by (rule v)
        next
          fix j w
          assume j: "j0 \<le> j" "j < min n (j0 + jblock)" and w: "I w"
          have "0 \<le> j" "j < n" using j j0 by simp_all
          then show "\<exists>t'. Some (wr w (i * n + j)
                        (fadd ar (rd w (i * n + j))
                           (fmul ar (rd (csr_values A) p) (getB layoutB B n (csr_k A) (rd (colidx A) p) j))))
                      = Some t' \<and> I t'"
            using w empty_rows_zero_wr [OF _ i(1) ne, of ar n w j]
            by (auto simp: I_def wr_def)
        qed
      qed
    qed
  qed
  then show ?thesis by (simp add: I_def Z_def)
qed

lemma bind_rule:
  assumes "\<exists>u. f = Some u \<and> I u" and "\<And>u. I u \<Longrightarrow> \<exists>t'. g u = Some t' \<and> I t'"
  shows "\<exists>t'. (case f of None \<Rightarrow> None | Some u \<Rightarrow> g u) = Some t' \<and> I t'"
  using assms by auto

text \<open>The same for the vectorised kernel.\<close>

lemma spmm_csr_avx2_zero_rows:
  assumes n: "1 \<le> n" and jb: "1 \<le> jblock"
  shows "\<exists>R. spmm_csr_avx2 ar A B C n jblock layoutB = Some R \<and>
             length R = length (zero_fill ar C (nat (csr_m A) * nat n)) \<and>
             (empty_rows_zero ar A n (zero_fill ar C (nat (csr_m A) * nat n)) \<longrightarrow> empty_rows_zero ar A n R)"
proof (cases "layoutB = RowMajor")
  case False
  then show ?thesis
    using spmm_csr_scalar_zero_rows [OF n jb, of ar A B C layoutB] by (simp add: spmm_csr_avx2_def)
next
  case True
  define Z where "Z = zero_fill ar C (nat (csr_m A) * nat n)"
  define I where "I = (\<lambda>t. length t = length Z \<and> (empty_rows_zero ar A n Z \<longrightarrow> empty_rows_zero ar A n t))"
  have "\<exists>R. spmm_csr_avx2 ar A B C n jblock layoutB = Some R \<and> I R"
    unfolding spmm_csr_avx2_def Let_def Z_def [symmetric] using True
    apply (simp only: not_True_eq_False if_False simp_thms)
    apply (rule for_step_rule [where I = I])
      apply simp
     apply (simp add: I_def)
    apply (rule for_step_rule [where I = I])
      apply (use jb in simp)
     apply assumption
    apply (rule for_step_rule [where I = I])
      apply simp
     apply assumption
    apply (rule bind_rule [where I = I])
     apply (rule for_step_rule [where I = I])
       apply simp
      apply assumption
    subgoal for i t j0 u p v j w
      using empty_rows_zero_storeu8 [of ar A n w i j]
        vector_end_bound [of j0 j "min n (j0 + jblock)"] jb
      by (auto simp: I_def length_storeu8)
    apply (rule for_step_rule [where I = I])
      apply simp
     apply assumption
    subgoal for i t j0 u p v w j x
      using empty_rows_zero_wr [of ar A n x i j]
        vector_end_lower [of j0 "min n (j0 + jblock)"] jb
      by (auto simp: I_def wr_def)
    done
  then show ?thesis by (simp add: I_def Z_def)
qed

lemma empty_rows_zero_replicate: "empty_rows_zero ar A n (replicate (nat (csr_m A) * nat n) (fzero ar))"
  unfolding empty_rows_zero_def
proof (intro allI impI)
  fix i j
  assume c: "0 \<le> i \<and> i < csr_m A \<and> rd (rowptr A) i = rd (rowptr A) (i + 1) \<and> 0 \<le> j \<and> j < n"
  have "i * n + j < i * n + n" using c by simp
  also have "\<dots> = (i + 1) * n" by (simp add: algebra_simps)
  also have "\<dots> \<le> csr_m A * n" using c by (intro mult_right_mono) simp_all
  finally have "i * n + j < csr_m A * n" .
  moreover have "0 \<le> i * n + j" using c by simp
  moreover have "nat (csr_m A) * nat n = nat (csr_m A * n)" using c by (simp add: nat_mult_distrib)
  ultimately have "nat (i * n + j) < nat (csr_m A) * nat n" by linarith
  then show "rd (replicate (nat (csr_m A) * nat n) (fzero ar)) (i * n + j) = fzero ar"
    by (simp add: rd_def)
qed

text \<open>
  C5. For every CSR matrix \<open>A\<close>, dense \<open>B\<close>, \<open>n \<ge> 1\<close> and \<open>jblock \<ge> 1\<close>, and for both
  kernels: the kernel returns, its result is the same for any two \<open>m \<times> n\<close> buffers passed
  as \<open>C\<close> (the output does not depend on the prior contents), and every output row \<open>i\<close>
  with \<open>rowptr[i] = rowptr[i + 1]\<close> is zero.
\<close>

theorem spmm_overwrites_output:
  assumes "1 \<le> n" and "1 \<le> jblock"
    and "length C = nat (csr_m A) * nat n" and "length C' = nat (csr_m A) * nat n"
  shows "(\<exists>R. spmm_csr_scalar ar A B C n jblock layoutB = Some R \<and>
              spmm_csr_scalar ar A B C' n jblock layoutB = Some R \<and>
              length R = nat (csr_m A) * nat n \<and> empty_rows_zero ar A n R) \<and>
         (\<exists>R. spmm_csr_avx2 ar A B C n jblock layoutB = Some R \<and>
              spmm_csr_avx2 ar A B C' n jblock layoutB = Some R \<and>
              length R = nat (csr_m A) * nat n \<and> empty_rows_zero ar A n R)"
proof -
  let ?N = "nat (csr_m A) * nat n"
  have z: "zero_fill ar C ?N = replicate ?N (fzero ar)" "zero_fill ar C' ?N = replicate ?N (fzero ar)"
    using assms(3,4) by (simp_all add: zero_fill_whole)
  have same_scalar: "spmm_csr_scalar ar A B C' n jblock layoutB = spmm_csr_scalar ar A B C n jblock layoutB"
    unfolding spmm_csr_scalar_def Let_def z ..
  have same_avx2: "spmm_csr_avx2 ar A B C' n jblock layoutB = spmm_csr_avx2 ar A B C n jblock layoutB"
    unfolding spmm_csr_avx2_def spmm_csr_scalar_def Let_def z ..
  from spmm_csr_scalar_zero_rows [OF assms(1,2), of ar A B C layoutB]
  have "\<exists>R. spmm_csr_scalar ar A B C n jblock layoutB = Some R \<and>
              length R = ?N \<and> empty_rows_zero ar A n R"
    unfolding z by (simp add: empty_rows_zero_replicate)
  moreover
  from spmm_csr_avx2_zero_rows [OF assms(1,2), of ar A B C layoutB]
  have "\<exists>R. spmm_csr_avx2 ar A B C n jblock layoutB = Some R \<and>
              length R = ?N \<and> empty_rows_zero ar A n R"
    unfolding z by (simp add: empty_rows_zero_replicate)
  ultimately show ?thesis unfolding same_scalar same_avx2 by simp
qed

text \<open>
  C6. With the column-major layout tag the vectorised kernel is the scalar kernel on the
  same arguments.
\<close>

theorem spmm_csr_avx2_colmajor:
  "spmm_csr_avx2 ar A B C n jblock ColMajor = spmm_csr_scalar ar A B C n jblock ColMajor"
  by (simp add: spmm_csr_avx2_def)


lemma spmm_runs:
  "spmm_csr_scalar exact_ops
     \<lparr>csr_m = 2, csr_k = 2, rowptr = [0, 1, 1], colidx = [1], csr_values = [3 :: int]\<rparr>
     [1, 2, 3, 4] [9, 9, 9, 9] 2 1 RowMajor = Some [9, 12, 0, 0]"
  "spmm_csr_avx2 exact_ops
     \<lparr>csr_m = 2, csr_k = 2, rowptr = [0, 1, 1], colidx = [1], csr_values = [3 :: int]\<rparr>
     [1, 2, 3, 4] [9, 9, 9, 9] 2 1 RowMajor = Some [9, 12, 0, 0]"
  by code_simp+

text \<open>
  A run of both kernels: the 2 x 2 matrix with the single non-zero 3 at (0, 1) and an
  empty second row, and two different prior contents of the output.
\<close>

theorem spmm_overwrites_output_witness:
  "(1 :: int) \<le> 2 \<and> (1 :: int) \<le> 1 \<and>
   length [9, 9, 9, 9 :: int] = nat 2 * nat 2 \<and> length [0, 7, 0, 7 :: int] = nat 2 * nat 2 \<and>
   spmm_csr_scalar exact_ops
     \<lparr>csr_m = 2, csr_k = 2, rowptr = [0, 1, 1], colidx = [1], csr_values = [3 :: int]\<rparr>
     [1, 2, 3, 4] [0, 7, 0, 7] 2 1 RowMajor = Some [9, 12, 0, 0] \<and>
   spmm_csr_avx2 exact_ops
     \<lparr>csr_m = 2, csr_k = 2, rowptr = [0, 1, 1], colidx = [1], csr_values = [3 :: int]\<rparr>
     [1, 2, 3, 4] [0, 7, 0, 7] 2 1 RowMajor = Some [9, 12, 0, 0] \<and>
   empty_rows_zero exact_ops
     \<lparr>csr_m = 2, csr_k = 2, rowptr = [0, 1, 1], colidx = [1], csr_values = [3 :: int]\<rparr>
     2 [9, 12, 0, 0]"
proof -
  let ?A = "\<lparr>csr_m = 2, csr_k = 2, rowptr = [0, 1, 1], colidx = [1], csr_values = [3 :: int]\<rparr>"
  have "(\<exists>R. spmm_csr_scalar exact_ops ?A [1, 2, 3, 4] [9, 9, 9, 9] 2 1 RowMajor = Some R \<and>
             spmm_csr_scalar exact_ops ?A [1, 2, 3, 4] [0, 7, 0, 7] 2 1 RowMajor = Some R \<and>
             length R = nat (csr_m ?A) * nat 2 \<and> empty_rows_zero exact_ops ?A 2 R) \<and>
        (\<exists>R. spmm_csr_avx2 exact_ops ?A [1, 2, 3, 4] [9, 9, 9, 9] 2 1 RowMajor = Some R \<and>
             spmm_csr_avx2 exact_ops ?A [1, 2, 3, 4] [0, 7, 0, 7] 2 1 RowMajor = Some R \<and>
             length R = nat (csr_m ?A) * nat 2 \<and> empty_rows_zero exact_ops ?A 2 R)"
    by (rule spmm_overwrites_output) simp_all
  then show ?thesis unfolding spmm_runs by simp
qed

section \<open>GEMM: accumulation over two calls\<close>

lemma gemm_tiled_scalar_returns:
  assumes "1 \<le> tileM" "1 \<le> tileK" "1 \<le> tileN"
  shows "\<exists>S. gemm_tiled_scalar ar A B C m k n tileM tileK tileN = Some S \<and> length S = length C"
proof -
  define I where "I = (\<lambda>t :: 'a list. length t = length C)"
  have "\<exists>S. gemm_tiled_scalar ar A B C m k n tileM tileK tileN = Some S \<and> I S"
    unfolding gemm_tiled_scalar_def Let_def
    apply (rule for_step_rule [where I = I])
      apply (use assms in simp)
     apply (simp add: I_def)
    apply (rule for_step_rule [where I = I])
      apply (use assms in simp)
     apply assumption
    apply (rule for_step_rule [where I = I])
      apply (use assms in simp)
     apply assumption
    apply (rule for_step_rule [where I = I])
      apply simp
     apply assumption
    apply (rule for_step_rule [where I = I])
      apply simp
     apply assumption
    apply (rule for_step_rule [where I = I])
      apply simp
     apply assumption
    apply (simp add: I_def wr_def)
    done
  then show ?thesis by (simp add: I_def)
qed

subsection \<open>Loops that touch one cell\<close>

text \<open>A unit-step loop whose body acts at the index \<open>j0\<close> only acts once, or not at all.\<close>

lemma for_step_unit_hit:
  "for_step lo hi 1 (\<lambda>j v. Some (if j = j0 \<and> c then g v else v)) v0 =
     Some (if (lo \<le> j0 \<and> j0 < hi) \<and> c then g v0 else v0)"
proof (cases "lo \<le> hi")
  case False
  then show ?thesis by (auto simp: for_step_done)
next
  case True
  define P where "P = (\<lambda>j v. v = (if (lo \<le> j0 \<and> j0 < j) \<and> c then g v0 else v0))"
  have "\<exists>s'. for_step lo hi 1 (\<lambda>j v. Some (if j = j0 \<and> c then g v else v)) v0 = Some s' \<and> P hi s'"
  proof (rule for_step_unit_rule [where P = P, OF True])
    show "P lo v0" by (auto simp: P_def)
  next
    fix j t
    assume "lo \<le> j" "j < hi" "P j t"
    then have "P (j + 1) (if j = j0 \<and> c then g t else t)" by (auto simp: P_def)
    then show "\<exists>t'. Some (if j = j0 \<and> c then g t else t) = Some t' \<and> P (j + 1) t'" by simp
  qed
  then show ?thesis by (auto simp: P_def)
qed

lemma for_step_unit_hit':
  "for_step lo hi 1 (\<lambda>j v. Some (if c \<and> j = j0 then g v else v)) v0 =
     Some (if c \<and> lo \<le> j0 \<and> j0 < hi then g v0 else v0)"
proof -
  have "(\<lambda>j v. Some (if c \<and> j = j0 then g v else v)) = (\<lambda>j v. Some (if j = j0 \<and> c then g v else v))"
    by (intro ext) auto
  then show ?thesis using for_step_unit_hit [of lo hi j0 c g v0] by (simp add: conj_commute)
qed

text \<open>A unit-step loop whose body always acts is a fold over its indices.\<close>

lemma for_step_unit_acc:
  "for_step lo hi 1 (\<lambda>t v. Some (if c then f v t else v)) v0 =
     Some (if c then foldl f v0 [lo..hi - 1] else v0)"
proof (cases "lo \<le> hi")
  case False
  then show ?thesis by (simp add: for_step_done)
next
  case True
  define P where "P = (\<lambda>j v. v = (if c then foldl f v0 [lo..j - 1] else v0))"
  have "\<exists>s'. for_step lo hi 1 (\<lambda>t v. Some (if c then f v t else v)) v0 = Some s' \<and> P hi s'"
  proof (rule for_step_unit_rule [where P = P, OF True])
    show "P lo v0" by (simp add: P_def)
  next
    fix j t
    assume j: "lo \<le> j" "j < hi" and t: "P j t"
    have "[lo..j] = [lo..j - 1] @ [j]" using j(1) by (rule upto_rec2)
    then have "P (j + 1) (if c then f t j else t)" using t by (simp add: P_def)
    then show "\<exists>t'. Some (if c then f t j else t) = Some t' \<and> P (j + 1) t'" by simp
  qed
  then show ?thesis by (auto simp: P_def)
qed

text \<open>The tiles \<open>[jj, min n (jj + step))\<close> of a tiled loop: exactly one of them holds \<open>j0\<close>.\<close>

lemma for_step_tile_hit:
  assumes step: "0 < step" and j0: "0 \<le> j0" "j0 < n"
  shows "for_step 0 n step (\<lambda>jj v. Some (if (jj \<le> j0 \<and> j0 < min n (jj + step)) \<and> c then g v else v)) v0 =
           Some (if c then g v0 else v0)"
proof -
  define P where "P = (\<lambda>j v. v = (if j0 < j \<and> c then g v0 else v0))"
  have "\<exists>s' j. for_step 0 n step (\<lambda>jj v. Some (if (jj \<le> j0 \<and> j0 < min n (jj + step)) \<and> c then g v else v)) v0
                  = Some s' \<and> 0 \<le> j \<and> n \<le> j \<and> P j s'"
  proof (rule for_step_index_rule [where P = P, OF step])
    show "P 0 v0" using j0 by (simp add: P_def)
  next
    fix j t
    assume j: "0 \<le> j" "j < n" and t: "P j t"
    have "P (j + step) (if (j \<le> j0 \<and> j0 < min n (j + step)) \<and> c then g t else t)"
      using t j j0 step by (auto simp: P_def)
    then show "\<exists>t'. Some (if (j \<le> j0 \<and> j0 < min n (j + step)) \<and> c then g t else t) = Some t' \<and>
                    P (j + step) t'"
      by simp
  qed
  then show ?thesis using j0 by (auto simp: P_def)
qed

lemma for_step_tile_hit':
  assumes step: "0 < step" and j0: "0 \<le> j0" "j0 < n"
  shows "for_step 0 n step (\<lambda>jj v. Some (if jj \<le> j0 \<and> j0 < min n (jj + step) then g v else v)) v0 =
           Some (g v0)"
  using for_step_tile_hit [OF assms, of True g v0] by simp

text \<open>The tiles of a tiled loop, one after the other, are the whole range.\<close>

lemma for_step_tile_acc:
  assumes step: "0 < step"
  shows "for_step 0 k step (\<lambda>kk v. Some (if c then foldl f v [kk..min k (kk + step) - 1] else v)) v0 =
           Some (if c then foldl f v0 [0..k - 1] else v0)"
proof -
  define P where "P = (\<lambda>j v. v = (if c then foldl f v0 [0..min k j - 1] else v0))"
  have "\<exists>s' j. for_step 0 k step (\<lambda>kk v. Some (if c then foldl f v [kk..min k (kk + step) - 1] else v)) v0
                  = Some s' \<and> 0 \<le> j \<and> k \<le> j \<and> P j s'"
  proof (rule for_step_index_rule [where P = P, OF step])
    show "P 0 v0" by (simp add: P_def)
  next
    fix j t
    assume j: "0 \<le> j" "j < k" and t: "P j t"
    have mj: "min k j = j" using j by simp
    have "[0..min k (j + step) - 1] = [0..j - 1] @ [j..min k (j + step) - 1]"
      by (rule upto_split1) (use j step in simp_all)
    then have "P (j + step) (if c then foldl f t [j..min k (j + step) - 1] else t)"
      using t by (simp add: P_def mj)
    then show "\<exists>t'. Some (if c then foldl f t [j..min k (j + step) - 1] else t) = Some t' \<and>
                    P (j + step) t'"
      by simp
  qed
  then obtain s' j where r: "for_step 0 k step (\<lambda>kk v. Some (if c then foldl f v [kk..min k (kk + step) - 1] else v)) v0
                  = Some s'" "k \<le> j" "P j s'"
    by blast
  have "min k j = k" using r(2) by simp
  then show ?thesis using r(1,3) by (simp add: P_def)
qed

text \<open>The same facts for the loops as functions of the state, as they stand inside a loop nest.\<close>

lemma for_step_unit_hit_fun:
  "for_step lo hi 1 (\<lambda>j v. Some (if j = j0 \<and> c then g v else v)) =
     (\<lambda>v0. Some (if (lo \<le> j0 \<and> j0 < hi) \<and> c then g v0 else v0))"
  by (rule ext) (rule for_step_unit_hit)

lemma for_step_unit_hit_fun':
  "for_step lo hi 1 (\<lambda>j v. Some (if c \<and> j = j0 then g v else v)) =
     (\<lambda>v0. Some (if c \<and> lo \<le> j0 \<and> j0 < hi then g v0 else v0))"
  by (rule ext) (rule for_step_unit_hit')

lemma for_step_unit_acc_fun:
  "for_step lo hi 1 (\<lambda>t v. Some (if c then f v t else v)) =
     (\<lambda>v0. Some (if c then foldl f v0 [lo..hi - 1] else v0))"
  by (rule ext) (rule for_step_unit_acc)

lemma for_step_tile_hit_fun:
  assumes step: "0 < step" and j0: "0 \<le> j0" "j0 < n"
  shows "for_step 0 n step (\<lambda>jj v. Some (if (jj \<le> j0 \<and> j0 < min n (jj + step)) \<and> c then g v else v)) =
           (\<lambda>v0. Some (if c then g v0 else v0))"
  by (rule ext) (rule for_step_tile_hit [OF assms])

lemma for_step_tile_acc_fun:
  assumes step: "0 < step"
  shows "for_step 0 k step (\<lambda>kk v. Some (if c then foldl f v [kk..min k (kk + step) - 1] else v)) =
           (\<lambda>v0. Some (if c then foldl f v0 [0..k - 1] else v0))"
  by (rule ext) (rule for_step_tile_acc [OF assms])

subsection \<open>One cell of the output\<close>

text \<open>The loop nest, as a cell sees it, adds the \<open>k\<close> products of the cell in the order of \<open>t\<close>.\<close>

lemma gemm_cell_nest_result:
  assumes tiles: "1 \<le> tileM" "1 \<le> tileK" "1 \<le> tileN"
    and cell: "0 \<le> i0" "i0 < m" "0 \<le> j0" "j0 < n"
  shows "gemm_cell_nest ar A B m k n tileM tileK tileN i0 j0 v =
           Some (foldl (\<lambda>s t. fadd ar s (fmul ar (rd A (i0 * k + t)) (rd B (t * n + j0)))) v [0..k - 1])"
proof -
  have tM: "0 < tileM" and tK: "0 < tileK" and tN: "0 < tileN" using tiles by simp_all
  show ?thesis
    unfolding gemm_cell_nest_def
    apply (simp only: for_step_unit_hit_fun)
    apply (simp only: for_step_unit_acc_fun)
    apply (simp only: for_step_unit_hit_fun')
    apply (simp only: for_step_tile_hit_fun [OF tN cell(3,4)])
    apply (simp only: for_step_tile_acc_fun [OF tK])
    apply (simp only: for_step_tile_hit' [OF tM cell(1,2)])
    done
qed

lemma cell_in_range:
  fixes i0 j0 m n :: int
  assumes "0 \<le> i0" "i0 < m" "0 \<le> j0" "j0 < n"
  shows "0 \<le> i0 * n + j0 \<and> nat (i0 * n + j0) < nat m * nat n"
proof -
  have "i0 * n + j0 < i0 * n + n" using assms by simp
  also have "\<dots> = (i0 + 1) * n" by (simp add: algebra_simps)
  also have "\<dots> \<le> m * n" using assms by (intro mult_right_mono) simp_all
  finally have a: "i0 * n + j0 < m * n" .
  have b: "0 \<le> i0 * n + j0" using assms by simp
  have "nat (m * n) = nat m * nat n" using assms by (simp add: nat_mult_distrib)
  then show ?thesis using a b by linarith
qed

lemma cell_step:
  fixes i j n i0 j0 :: int
  assumes "0 \<le> i" "0 \<le> j" "j < n" "0 \<le> i0" "0 \<le> j0" "j0 < n" "nat (i0 * n + j0) < length u"
  shows "rd (wr u (i * n + j) y) (i0 * n + j0) =
           (if j = j0 \<and> i = i0 then y else rd u (i0 * n + j0))"
proof (cases "j = j0 \<and> i = i0")
  case True
  then show ?thesis using assms by (simp add: rd_def wr_def)
next
  case False
  have "i * n + j \<noteq> i0 * n + j0"
  proof (cases "i = i0")
    case True
    then show ?thesis using False by simp
  next
    case False
    then show ?thesis using assms by (intro cell_index_neq) simp_all
  qed
  moreover have "0 \<le> i * n + j" "0 \<le> i0 * n + j0" using assms by simp_all
  ultimately have "nat (i * n + j) \<noteq> nat (i0 * n + j0)" by simp
  then show ?thesis using False by (auto simp: rd_def wr_def)
qed

text \<open>The kernel and the loop nest of one of its cells run side by side.\<close>

lemma gemm_tiled_scalar_cell_rel:
  assumes tiles: "1 \<le> tileM" "1 \<le> tileK" "1 \<le> tileN"
    and cell: "0 \<le> i0" "i0 < m" "0 \<le> j0" "j0 < n"
    and len: "length C = nat m * nat n"
  shows "rel_option (\<lambda>u v. length u = length C \<and> rd u (i0 * n + j0) = v)
           (gemm_tiled_scalar ar A B C m k n tileM tileK tileN)
           (gemm_cell_nest ar A B m k n tileM tileK tileN i0 j0 (rd C (i0 * n + j0)))"
proof -
  define R where "R = (\<lambda>(u :: 'a list) v. length u = length C \<and> rd u (i0 * n + j0) = v)"
  have rng: "nat (i0 * n + j0) < length u" if "length u = length C" for u :: "'a list"
    using cell_in_range [OF cell] len that by simp
  have "rel_option R (gemm_tiled_scalar ar A B C m k n tileM tileK tileN)
           (gemm_cell_nest ar A B m k n tileM tileK tileN i0 j0 (rd C (i0 * n + j0)))"
    unfolding gemm_tiled_scalar_def gemm_cell_nest_def Let_def
    apply (rule for_step_rel [where R = R])
      apply (use tiles in simp)
     apply (simp add: R_def)
    apply (rule for_step_rel [where R = R])
      apply (use tiles in simp)
     apply assumption
    apply (rule for_step_rel [where R = R])
      apply (use tiles in simp)
     apply assumption
    apply (rule for_step_rel [where R = R])
      apply simp
     apply assumption
    apply (rule for_step_rel [where R = R])
      apply simp
     apply assumption
    apply (rule for_step_rel [where R = R])
      apply simp
     apply assumption
    apply (simp add: R_def length_wr cell_step cell rng)
    done
  then show ?thesis by (simp add: R_def)
qed

text \<open>
  One call of the kernel: every cell of \<open>C\<close> is its old value with the \<open>k\<close> products of the
  cell added to it, one after the other, in the order \<open>t = 0, ..., k - 1\<close>. This holds of
  every arithmetic and of all tile sizes.
\<close>

lemma gemm_tiled_scalar_cell:
  assumes tiles: "1 \<le> tileM" "1 \<le> tileK" "1 \<le> tileN"
    and cell: "0 \<le> i" "i < m" "0 \<le> j" "j < n"
    and len: "length C = nat m * nat n"
    and run: "gemm_tiled_scalar ar A B C m k n tileM tileK tileN = Some S"
  shows "rd S (i * n + j) = foldl (fadd ar) (rd C (i * n + j)) (cell_products ar A B k n i j)"
proof -
  have "rel_option (\<lambda>u v. length u = length C \<and> rd u (i * n + j) = v)
           (Some S)
           (Some (foldl (\<lambda>s t. fadd ar s (fmul ar (rd A (i * k + t)) (rd B (t * n + j))))
                    (rd C (i * n + j)) [0..k - 1]))"
    using gemm_tiled_scalar_cell_rel [OF tiles cell len, of ar A B k]
    unfolding run gemm_cell_nest_result [OF tiles cell] .
  then show ?thesis by (simp add: cell_products_def foldl_map)
qed

text \<open>Sums without rounding stand for the sums of the numbers.\<close>

lemma no_rounding_sum:
  "no_rounding v ar c ps \<Longrightarrow> v (foldl (fadd ar) c ps) = v c + sum_list (map v ps)"
  by (induction ps arbitrary: c) (simp_all add: add.assoc)

subsection \<open>Two calls\<close>

text \<open>
  C7, as stated, fails in single precision. With \<open>A = (1 1 1)\<close> and the column
  \<open>B = (1, 3 * 2^-25, 3 * 2^-25)\<close>, every product is exact; the first call after
  \<open>zero_fill\<close> leaves \<open>1 + 2^-22\<close> in \<open>C\<close> (each addition rounds up), the second call adds
  the same products to it and leaves \<open>2 + 2^-22\<close> (the two small terms are rounded away),
  which is not twice the first result, \<open>2 + 2^-21\<close>.
\<close>

theorem gemm_twice_binary32_counterexample:
  "gemm_tiled_scalar binary32_ops [(1, 0), (1, 0), (1, 0)] [(1, 0), (3, - 25), (3, - 25)]
     (zero_fill binary32_ops [(1, 0)] 1) 1 3 1 64 64 128 = Some [(4194305, - 22)] \<and>
   gemm_tiled_scalar binary32_ops [(1, 0), (1, 0), (1, 0)] [(1, 0), (3, - 25), (3, - 25)]
     [(4194305, - 22)] 1 3 1 64 64 128 = Some [(8388609, - 22)] \<and>
   fadd binary32_ops (4194305, - 22) (4194305, - 22) = (4194305, - 21) \<and>
   (8388609, - 22) \<noteq> fadd binary32_ops (4194305, - 22) (4194305, - 22)"
  by code_simp

text \<open>
  C7, amended. For every dense \<open>A\<close> (\<open>m \<times> k\<close>), \<open>B\<close> (\<open>k \<times> n\<close>), all tile sizes \<open>\<ge> 1\<close> and
  every arithmetic, single precision included: after \<open>zero_fill\<close> of \<open>C\<close> the kernel
  returns, and so does a second call with the same arguments and no re-zeroing. After
  the first call every element of \<open>C\<close> is \<open>+0.0f\<close> with its \<open>k\<close> products
  \<open>A[i,t] * B[t,j]\<close> added to it one after the other, in the order \<open>t = 0, ..., k - 1\<close>;
  after the second call it is its value after the first call with the same products
  added to it in the same order (accumulation, not overwrite). An element is exactly
  twice its value after the single call whenever none of these additions rounds. Here
  \<open>v\<close> gives the number that a float stands for.
\<close>

theorem gemm_twice_accumulates:
  fixes v :: "'a \<Rightarrow> real"
  assumes tiles: "1 \<le> tileM" "1 \<le> tileK" "1 \<le> tileN"
    and lenA: "length A = nat m * nat k" and lenB: "length B = nat k * nat n"
    and len: "length C = nat m * nat n"
  shows "\<exists>S T. gemm_tiled_scalar ar A B (zero_fill ar C (length C)) m k n tileM tileK tileN = Some S \<and>
               gemm_tiled_scalar ar A B S m k n tileM tileK tileN = Some T \<and>
               length S = length C \<and> length T = length C \<and>
               (\<forall>i j. 0 \<le> i \<and> i < m \<and> 0 \<le> j \<and> j < n \<longrightarrow>
                  rd S (i * n + j) = foldl (fadd ar) (fzero ar) (cell_products ar A B k n i j) \<and>
                  rd T (i * n + j) = foldl (fadd ar) (rd S (i * n + j)) (cell_products ar A B k n i j) \<and>
                  (v (fzero ar) = 0 \<and>
                   no_rounding v ar (fzero ar) (cell_products ar A B k n i j) \<and>
                   no_rounding v ar (rd S (i * n + j)) (cell_products ar A B k n i j)
                   \<longrightarrow> v (rd T (i * n + j)) = 2 * v (rd S (i * n + j))))"
proof -
  define Z where "Z = zero_fill ar C (length C)"
  have Z: "Z = replicate (length C) (fzero ar)" by (simp add: Z_def zero_fill_whole)
  have lenZ: "length Z = nat m * nat n" using Z len by simp
  obtain S where S: "gemm_tiled_scalar ar A B Z m k n tileM tileK tileN = Some S" "length S = length Z"
    using gemm_tiled_scalar_returns [OF tiles, of ar A B Z m k n] by blast
  have lenS: "length S = nat m * nat n" using S(2) lenZ by simp
  obtain T where T: "gemm_tiled_scalar ar A B S m k n tileM tileK tileN = Some T" "length T = length S"
    using gemm_tiled_scalar_returns [OF tiles, of ar A B S m k n] by blast
  have cells: "rd S (i * n + j) = foldl (fadd ar) (fzero ar) (cell_products ar A B k n i j) \<and>
               rd T (i * n + j) = foldl (fadd ar) (rd S (i * n + j)) (cell_products ar A B k n i j) \<and>
               (v (fzero ar) = 0 \<and>
                no_rounding v ar (fzero ar) (cell_products ar A B k n i j) \<and>
                no_rounding v ar (rd S (i * n + j)) (cell_products ar A B k n i j)
                \<longrightarrow> v (rd T (i * n + j)) = 2 * v (rd S (i * n + j)))"
    if c: "0 \<le> i" "i < m" "0 \<le> j" "j < n" for i j
  proof -
    have z: "rd Z (i * n + j) = fzero ar"
      using cell_in_range [OF c] len by (simp add: Z rd_def)
    have s: "rd S (i * n + j) = foldl (fadd ar) (fzero ar) (cell_products ar A B k n i j)"
      using gemm_tiled_scalar_cell [OF tiles c lenZ S(1)] z by simp
    have t: "rd T (i * n + j) = foldl (fadd ar) (rd S (i * n + j)) (cell_products ar A B k n i j)"
      by (rule gemm_tiled_scalar_cell [OF tiles c lenS T(1)])
    have "v (rd T (i * n + j)) = 2 * v (rd S (i * n + j))"
      if "v (fzero ar) = 0" "no_rounding v ar (fzero ar) (cell_products ar A B k n i j)"
        "no_rounding v ar (rd S (i * n + j)) (cell_products ar A B k n i j)"
    proof -
      have "v (rd S (i * n + j)) = sum_list (map v (cell_products ar A B k n i j))"
        using no_rounding_sum [OF that(2)] that(1) s by simp
      moreover have "v (rd T (i * n + j)) = v (rd S (i * n + j)) + sum_list (map v (cell_products ar A B k n i j))"
        using no_rounding_sum [OF that(3)] t by simp
      ultimately show ?thesis by simp
    qed
    then show ?thesis using s t by blast
  qed
  have runs: "gemm_tiled_scalar ar A B (zero_fill ar C (length C)) m k n tileM tileK tileN = Some S \<and>
        gemm_tiled_scalar ar A B S m k n tileM tileK tileN = Some T \<and>
        length S = length C \<and> length T = length C"
    using S T lenS len by (simp add: Z_def)
  show ?thesis
  proof (intro exI conjI allI impI)
    show "gemm_tiled_scalar ar A B (zero_fill ar C (length C)) m k n tileM tileK tileN = Some S"
      using runs by simp
    show "gemm_tiled_scalar ar A B S m k n tileM tileK tileN = Some T" using runs by simp
    show "length S = length C" using runs by simp
    show "length T = length C" using runs by simp
  next
    fix i j
    assume "0 \<le> i \<and> i < m \<and> 0 \<le> j \<and> j < n"
    then have c: "0 \<le> i" "i < m" "0 \<le> j" "j < n" by simp_all
    note r = cells [OF c]
    show "rd S (i * n + j) = foldl (fadd ar) (fzero ar) (cell_products ar A B k n i j)"
      using r by simp
    show "rd T (i * n + j) = foldl (fadd ar) (rd S (i * n + j)) (cell_products ar A B k n i j)"
      using r by simp
    assume "v (fzero ar) = 0 \<and>
            no_rounding v ar (fzero ar) (cell_products ar A B k n i j) \<and>
            no_rounding v ar (rd S (i * n + j)) (cell_products ar A B k n i j)"
    then show "v (rd T (i * n + j)) = 2 * v (rd S (i * n + j))" using r by blast
  qed
qed

text \<open>
  The scenario of the specification in single precision: the 2 x 2 identity times
  \<open>((5, 6), (7, 8))\<close>, twice. No addition rounds, and the second result is twice the first.
\<close>

lemma gemm_identity_run:
  "gemm_tiled_scalar binary32_ops [(1, 0), (0, 0), (0, 0), (1, 0)] [(5, 0), (3, 1), (7, 0), (1, 3)]
     (zero_fill binary32_ops [(3, 0), (3, 0), (3, 0), (3, 0)] 4) 2 2 2 64 64 128
     = Some [(5, 0), (3, 1), (7, 0), (1, 3)]"
  "gemm_tiled_scalar binary32_ops [(1, 0), (0, 0), (0, 0), (1, 0)] [(5, 0), (3, 1), (7, 0), (1, 3)]
     [(5, 0), (3, 1), (7, 0), (1, 3)] 2 2 2 64 64 128
     = Some [(5, 1), (3, 2), (7, 1), (1, 4)]"
  by code_simp+

lemma gemm_identity_no_rounding:
  "no_rounding f32_value binary32_ops (fzero binary32_ops)
     (cell_products binary32_ops [(1, 0), (0, 0), (0, 0), (1, 0)] [(5, 0), (3, 1), (7, 0), (1, 3)] 2 2 0 0)"
  "no_rounding f32_value binary32_ops (5, 0)
     (cell_products binary32_ops [(1, 0), (0, 0), (0, 0), (1, 0)] [(5, 0), (3, 1), (7, 0), (1, 3)] 2 2 0 0)"
  "no_rounding f32_value binary32_ops (fzero binary32_ops)
     (cell_products binary32_ops [(1, 0), (0, 0), (0, 0), (1, 0)] [(5, 0), (3, 1), (7, 0), (1, 3)] 2 2 0 1)"
  "no_rounding f32_value binary32_ops (3, 1)
     (cell_products binary32_ops [(1, 0), (0, 0), (0, 0), (1, 0)] [(5, 0), (3, 1), (7, 0), (1, 3)] 2 2 0 1)"
  "no_rounding f32_value binary32_ops (fzero binary32_ops)
     (cell_products binary32_ops [(1, 0), (0, 0), (0, 0), (1, 0)] [(5, 0), (3, 1), (7, 0), (1, 3)] 2 2 1 0)"
  "no_rounding f32_value binary32_ops (7, 0)
     (cell_products binary32_ops [(1, 0), (0, 0), (0, 0), (1, 0)] [(5, 0), (3, 1), (7, 0), (1, 3)] 2 2 1 0)"
  "no_rounding f32_value binary32_ops (fzero binary32_ops)
     (cell_products binary32_ops [(1, 0), (0, 0), (0, 0), (1, 0)] [(5, 0), (3, 1), (7, 0), (1, 3)] 2 2 1 1)"
  "no_rounding f32_value binary32_ops (1, 3)
     (cell_products binary32_ops [(1, 0), (0, 0), (0, 0), (1, 0)] [(5, 0), (3, 1), (7, 0), (1, 3)] 2 2 1 1)"
  by code_simp+

lemma f32_value_zero: "f32_value (fzero binary32_ops) = 0"
  by (simp add: f32_value_def binary32_ops_def)

theorem gemm_twice_accumulates_witness:
  "(1 :: int) \<le> 64 \<and> (1 :: int) \<le> 128 \<and>
   length [(1, 0), (0, 0), (0, 0), (1, 0) :: f32] = nat 2 * nat 2 \<and>
   length [(5, 0), (3, 1), (7, 0), (1, 3) :: f32] = nat 2 * nat 2 \<and>
   length [(3, 0), (3, 0), (3, 0), (3, 0) :: f32] = nat 2 * nat 2 \<and>
   f32_value (fzero binary32_ops) = 0 \<and>
   no_rounding f32_value binary32_ops (fzero binary32_ops)
     (cell_products binary32_ops [(1, 0), (0, 0), (0, 0), (1, 0)] [(5, 0), (3, 1), (7, 0), (1, 3)] 2 2 0 0) \<and>
   no_rounding f32_value binary32_ops (5, 0)
     (cell_products binary32_ops [(1, 0), (0, 0), (0, 0), (1, 0)] [(5, 0), (3, 1), (7, 0), (1, 3)] 2 2 0 0) \<and>
   no_rounding f32_value binary32_ops (fzero binary32_ops)
     (cell_products binary32_ops [(1, 0), (0, 0), (0, 0), (1, 0)] [(5, 0), (3, 1), (7, 0), (1, 3)] 2 2 0 1) \<and>
   no_rounding f32_value binary32_ops (3, 1)
     (cell_products binary32_ops [(1, 0), (0, 0), (0, 0), (1, 0)] [(5, 0), (3, 1), (7, 0), (1, 3)] 2 2 0 1) \<and>
   no_rounding f32_value binary32_ops (fzero binary32_ops)
     (cell_products binary32_ops [(1, 0), (0, 0), (0, 0), (1, 0)] [(5, 0), (3, 1), (7, 0), (1, 3)] 2 2 1 0) \<and>
   no_rounding f32_value binary32_ops (7, 0)
     (cell_products binary32_ops [(1, 0), (0, 0), (0, 0), (1, 0)] [(5, 0), (3, 1), (7, 0), (1, 3)] 2 2 1 0) \<and>
   no_rounding f32_value binary32_ops (fzero binary32_ops)
     (cell_products binary32_ops [(1, 0), (0, 0), (0, 0), (1, 0)] [(5, 0), (3, 1), (7, 0), (1, 3)] 2 2 1 1) \<and>
   no_rounding f32_value binary32_ops (1, 3)
     (cell_products binary32_ops [(1, 0), (0, 0), (0, 0), (1, 0)] [(5, 0), (3, 1), (7, 0), (1, 3)] 2 2 1 1) \<and>
   gemm_tiled_scalar binary32_ops [(1, 0), (0, 0), (0, 0), (1, 0)] [(5, 0), (3, 1), (7, 0), (1, 3)]
     (zero_fill binary32_ops [(3, 0), (3, 0), (3, 0), (3, 0)] 4) 2 2 2 64 64 128
     = Some [(5, 0), (3, 1), (7, 0), (1, 3)] \<and>
   gemm_tiled_scalar binary32_ops [(1, 0), (0, 0), (0, 0), (1, 0)] [(5, 0), (3, 1), (7, 0), (1, 3)]
     [(5, 0), (3, 1), (7, 0), (1, 3)] 2 2 2 64 64 128
     = Some [(5, 1), (3, 2), (7, 1), (1, 4)] \<and>
   f32_value (5, 1) = 2 * f32_value (5, 0) \<and>
   f32_value (3, 2) = 2 * f32_value (3, 1) \<and>
   f32_value (7, 1) = 2 * f32_value (7, 0) \<and>
   f32_value (1, 4) = 2 * f32_value (1, 3)"
proof -
  let ?A = "[(1, 0), (0, 0), (0, 0), (1, 0) :: f32]"
  let ?B = "[(5, 0), (3, 1), (7, 0), (1, 3) :: f32]"
  let ?C = "[(3, 0), (3, 0), (3, 0), (3, 0) :: f32]"
  let ?S = "[(5, 0), (3, 1), (7, 0), (1, 3) :: f32]"
  let ?T = "[(5, 1), (3, 2), (7, 1), (1, 4) :: f32]"
  have l: "length ?C = 4" by simp
  have "\<exists>S T. gemm_tiled_scalar binary32_ops ?A ?B (zero_fill binary32_ops ?C 4) 2 2 2 64 64 128 = Some S \<and>
               gemm_tiled_scalar binary32_ops ?A ?B S 2 2 2 64 64 128 = Some T \<and>
               length S = 4 \<and> length T = 4 \<and>
               (\<forall>i j. 0 \<le> i \<and> i < 2 \<and> 0 \<le> j \<and> j < 2 \<longrightarrow>
                  rd S (i * 2 + j) = foldl (fadd binary32_ops) (fzero binary32_ops)
                                       (cell_products binary32_ops ?A ?B 2 2 i j) \<and>
                  rd T (i * 2 + j) = foldl (fadd binary32_ops) (rd S (i * 2 + j))
                                       (cell_products binary32_ops ?A ?B 2 2 i j) \<and>
                  (f32_value (fzero binary32_ops) = 0 \<and>
                   no_rounding f32_value binary32_ops (fzero binary32_ops)
                     (cell_products binary32_ops ?A ?B 2 2 i j) \<and>
                   no_rounding f32_value binary32_ops (rd S (i * 2 + j))
                     (cell_products binary32_ops ?A ?B 2 2 i j)
                   \<longrightarrow> f32_value (rd T (i * 2 + j)) = 2 * f32_value (rd S (i * 2 + j))))"
    by (rule gemm_twice_accumulates [where tileM = 64 and tileK = 64 and tileN = 128 and A = ?A
          and B = ?B and C = ?C and m = 2 and k = 2 and n = 2 and ar = binary32_ops
          and v = f32_value, unfolded l])
      simp_all
  then obtain S T where
    S: "gemm_tiled_scalar binary32_ops ?A ?B (zero_fill binary32_ops ?C 4) 2 2 2 64 64 128 = Some S"
    and T: "gemm_tiled_scalar binary32_ops ?A ?B S 2 2 2 64 64 128 = Some T"
    and cells: "\<And>i j. 0 \<le> i \<and> i < 2 \<and> 0 \<le> j \<and> j < 2 \<Longrightarrow>
                  f32_value (fzero binary32_ops) = 0 \<and>
                  no_rounding f32_value binary32_ops (fzero binary32_ops)
                    (cell_products binary32_ops ?A ?B 2 2 i j) \<and>
                  no_rounding f32_value binary32_ops (rd S (i * 2 + j))
                    (cell_products binary32_ops ?A ?B 2 2 i j)
                  \<Longrightarrow> f32_value (rd T (i * 2 + j)) = 2 * f32_value (rd S (i * 2 + j))"
    by blast
  have S': "S = ?S" using S by (simp add: gemm_identity_run)
  have T': "T = ?T" using T unfolding S' by (simp add: gemm_identity_run)
  have c00: "f32_value (5, 1) = 2 * f32_value (5, 0)"
    using cells [of 0 0] gemm_identity_no_rounding f32_value_zero by (simp add: S' T' rd_def)
  have c01: "f32_value (3, 2) = 2 * f32_value (3, 1)"
    using cells [of 0 1] gemm_identity_no_rounding f32_value_zero by (simp add: S' T' rd_def)
  have c10: "f32_value (7, 1) = 2 * f32_value (7, 0)"
    using cells [of 1 0] gemm_identity_no_rounding f32_value_zero by (simp add: S' T' rd_def)
  have c11: "f32_value (1, 4) = 2 * f32_value (1, 3)"
    using cells [of 1 1] gemm_identity_no_rounding f32_value_zero by (simp add: S' T' rd_def)
  show ?thesis
    using c00 c01 c10 c11 gemm_identity_no_rounding f32_value_zero
    by (simp add: gemm_identity_run)
qed
section \<open>Stream triad\<close>

lemma length_fill_random: "length (fill_random L x n seed) = length x"
proof -
  have "length (fst (fold (\<lambda>i (x, rng). case uniform_real L rng of (v, rng') \<Rightarrow> (x[i := v], rng')) is st))
        = length (fst st)" for "is" st
    by (induction "is" arbitrary: st) (auto split: prod.splits)
  then show ?thesis by (simp add: fill_random_def)
qed

text \<open>One sweep over the index range sets every element, whatever the buffer held before.\<close>

lemma triad_sweep:
  assumes "length a = N"
  shows "\<exists>a'. for_step 0 (int N) 1 (\<lambda>i a. Some (wr a i (fadd ar (rd b i) (fmul ar s (rd c i))))) a = Some a' \<and>
              length a' = N \<and> (\<forall>i < N. a' ! i = fadd ar (b ! i) (fmul ar s (c ! i)))"
proof -
  define P where "P = (\<lambda>j t. 0 \<le> j \<and> length t = N \<and>
    (\<forall>i < nat j. t ! i = fadd ar (b ! i) (fmul ar s (c ! i))))"
  have "\<exists>a'. for_step 0 (int N) 1 (\<lambda>i a. Some (wr a i (fadd ar (rd b i) (fmul ar s (rd c i))))) a = Some a' \<and>
              P (int N) a'"
  proof (rule for_step_unit_rule [where P = P])
    show "0 \<le> int N" by simp
    show "P 0 a" using assms by (simp add: P_def)
  next
    fix j t
    assume j: "0 \<le> j" "j < int N" and t: "P j t"
    have "P (j + 1) (wr t j (fadd ar (rd b j) (fmul ar s (rd c j))))"
      unfolding P_def
    proof (intro conjI allI impI)
      show "0 \<le> j + 1" using j by simp
      show "length (wr t j (fadd ar (rd b j) (fmul ar s (rd c j)))) = N"
        using t by (simp add: P_def wr_def)
    next
      fix i
      assume i: "i < nat (j + 1)"
      have len: "nat j < length t" using t j by (simp add: P_def)
      show "wr t j (fadd ar (rd b j) (fmul ar s (rd c j))) ! i = fadd ar (b ! i) (fmul ar s (c ! i))"
      proof (cases "i = nat j")
        case True
        then show ?thesis using len by (simp add: wr_def rd_def)
      next
        case False
        then have "i < nat j" using i j by linarith
        then show ?thesis using t False by (simp add: P_def wr_def)
      qed
    qed
    then show "\<exists>t'. Some (wr t j (fadd ar (rd b j) (fmul ar s (rd c j)))) = Some t' \<and> P (j + 1) t'"
      by simp
  qed
  then show ?thesis by (simp add: P_def)
qed

lemma stream_triad_loop_result:
  assumes "1 \<le> iters" "length a = N"
  shows "\<exists>a'. stream_triad_loop ar s b c N iters a = Some a' \<and>
              length a' = N \<and> (\<forall>i < N. a' ! i = fadd ar (b ! i) (fmul ar s (c ! i)))"
proof -
  define P where "P = (\<lambda>(it :: int) t. length t = N \<and>
    (0 < it \<longrightarrow> (\<forall>i < N. t ! i = fadd ar (b ! i) (fmul ar s (c ! i)))))"
  have "\<exists>a'. stream_triad_loop ar s b c N iters a = Some a' \<and> P iters a'"
    unfolding stream_triad_loop_def
  proof (rule for_step_unit_rule [where P = P])
    show "0 \<le> iters" using assms by simp
    show "P 0 a" using assms by (simp add: P_def)
  next
    fix it t
    assume "0 \<le> it" "it < iters" "P it t"
    then have "length t = N" by (simp add: P_def)
    from triad_sweep [OF this, of ar b s c]
    show "\<exists>t'. for_step 0 (int N) 1 (\<lambda>i a. Some (wr a i (fadd ar (rd b i) (fmul ar s (rd c i))))) t = Some t' \<and>
               P (it + 1) t'"
      using \<open>0 \<le> it\<close> by (auto simp: P_def)
  qed
  then show ?thesis using assms by (auto simp: P_def)
qed

text \<open>
  C9. For the probe run with \<open>N = 1024\<close> and \<open>iters = 1\<close> (and for every \<open>N\<close> and
  \<open>iters \<ge> 1\<close>): when the kernel loop has finished, \<open>b\<close> and \<open>c\<close> are the buffers as filled
  with pseudo-random data, and \<open>a[i]\<close> is the single-precision value \<open>b[i] + s * c[i]\<close> for
  every \<open>i < N\<close>.
\<close>

theorem stream_triad_values:
  assumes "1 \<le> iters" and "length a0 = N" and "length b0 = N" and "length c0 = N"
  shows "\<exists>a. stream_triad_buffers L ar s a0 b0 c0 N iters
               = Some (a, fill_random L b0 N 2, fill_random L c0 N 3) \<and>
             length a = N \<and>
             (\<forall>i < N. a ! i = fadd ar (fill_random L b0 N 2 ! i) (fmul ar s (fill_random L c0 N 3 ! i)))"
proof -
  have "length (fill_random L a0 N 1) = N" using assms by (simp add: length_fill_random)
  from stream_triad_loop_result [OF assms(1) this, of ar s "fill_random L b0 N 2" "fill_random L c0 N 3"]
  show ?thesis by (auto simp: stream_triad_buffers_def Let_def)
qed

theorem stream_triad_values_witness:
  "(1 :: int) \<le> 1 \<and> length (replicate 1024 (0 :: int)) = 1024 \<and>
   (\<exists>a. stream_triad_buffers counter_lib exact_ops 11 (replicate 1024 0) (replicate 1024 0)
           (replicate 1024 0) 1024 1
         = Some (a, fill_random counter_lib (replicate 1024 0) 1024 2,
                    fill_random counter_lib (replicate 1024 0) 1024 3) \<and>
        length a = 1024 \<and>
        (\<forall>i < 1024. a ! i = fadd exact_ops (fill_random counter_lib (replicate 1024 0) 1024 2 ! i)
                               (fmul exact_ops 11 (fill_random counter_lib (replicate 1024 0) 1024 3 ! i))))"
  using stream_triad_values [of 1 "replicate 1024 (0 :: int)" 1024 "replicate 1024 0" "replicate 1024 0"
      counter_lib exact_ops 11]
  by simp

section \<open>Trial loops: every kernel call is timed\<close>

lemma timed_call_effect:
  assumes "kern (Cbuf st) = Some C'"
  shows "timed_call clock kern st =
           Some (st\<lparr>now_calls := now_calls st + 2, kernel_calls := Suc (kernel_calls st), Cbuf := C',
                    history := history st @ [Clock_read (now_calls st), Kernel_call,
                                             Clock_read (Suc (now_calls st))],
                    call_times := call_times st @ [clock (Suc (now_calls st)) - clock (now_calls st)]\<rparr>)"
  using assms by (simp add: timed_call_def now_seconds_def call_kernel_def)

lemma timed_call_returned:
  assumes "timed_call clock kern st = Some st'"
  shows "\<exists>C'. kern (Cbuf st) = Some C'"
  using assms by (cases "kern (Cbuf st)") (simp_all add: timed_call_def now_seconds_def call_kernel_def)

lemma timed_rounds_Suc:
  fixes su t :: "'c trial_state"
  assumes t: "timed_rounds clock prep j st t"
    and su: "now_calls su = now_calls t" "kernel_calls su = kernel_calls t"
      "call_times su = call_times t" "history su = history t @ prep"
  shows "timed_rounds clock prep (Suc j) st
           (su\<lparr>now_calls := now_calls su + 2, kernel_calls := Suc (kernel_calls su), Cbuf := C',
               history := history su @ [Clock_read (now_calls su), Kernel_call,
                                        Clock_read (Suc (now_calls su))],
               call_times := call_times su @ [clock (Suc (now_calls su)) - clock (now_calls su)]\<rparr>)"
  using t su by (simp add: timed_rounds_def)

text \<open>
  A trial loop whose rounds first apply \<open>pre\<close>, which leaves the counters and the samples
  alone and adds the calls \<open>prep\<close> to the history.
\<close>

lemma trial_loop_returned:
  fixes st :: "'c trial_state"
  assumes pre: "\<And>t. now_calls (pre t) = now_calls t \<and> kernel_calls (pre t) = kernel_calls t \<and>
                     call_times (pre t) = call_times t \<and> history (pre t) = history t @ prep"
    and reps: "0 \<le> reps"
    and run: "for_step 0 reps 1 (\<lambda>r st. timed_call clock kern (pre st)) st = Some st'"
  shows "timed_rounds clock prep (nat reps) st st'"
proof -
  define P where "P = (\<lambda>j (t :: 'c trial_state). 0 \<le> j \<and> timed_rounds clock prep (nat j) st t)"
  have "P reps st'"
  proof (rule for_step_unit_returned [where P = P, OF reps _ _ run])
    show "P 0 st" by (simp add: P_def timed_rounds_def)
  next
    fix j t t'
    assume j: "0 \<le> j" "j < reps" and t: "P j t" and r: "timed_call clock kern (pre t) = Some t'"
    obtain C' where C': "kern (Cbuf (pre t)) = Some C'" using timed_call_returned [OF r] by blast
    have nj: "nat (j + 1) = Suc (nat j)" using j by linarith
    have t': "t' = (pre t)\<lparr>now_calls := now_calls (pre t) + 2, kernel_calls := Suc (kernel_calls (pre t)),
                 Cbuf := C',
                 history := history (pre t) @ [Clock_read (now_calls (pre t)), Kernel_call,
                                               Clock_read (Suc (now_calls (pre t)))],
                 call_times := call_times (pre t) @
                   [clock (Suc (now_calls (pre t))) - clock (now_calls (pre t))]\<rparr>"
      using timed_call_effect [where kern = kern and st = "pre t" and C' = C' and clock = clock, OF C'] r
      by simp
    have "timed_rounds clock prep (Suc (nat j)) st t'"
      unfolding t'
      by (rule timed_rounds_Suc [where t = t]) (use t pre [of t] in \<open>simp_all add: P_def\<close>)
    then show "P (j + 1) t'" using j by (simp add: P_def nj)
  qed
  then show ?thesis by (simp add: P_def)
qed

lemma trial_loop_returns:
  assumes ret: "\<forall>C. kern C \<noteq> None"
  shows "for_step 0 reps 1 (\<lambda>r st. timed_call clock kern (pre st)) st \<noteq> None"
proof -
  have "\<exists>s'. for_step 0 reps 1 (\<lambda>r st. timed_call clock kern (pre st)) st = Some s' \<and> True"
  proof (rule for_step_rule [where I = "\<lambda>_. True"])
    show "(0 :: int) < 1" by simp
    show True ..
  next
    fix j t
    have "kern (Cbuf (pre t)) \<noteq> None" using ret by (rule spec)
    then obtain C' where C': "kern (Cbuf (pre t)) = Some C'" by blast
    show "\<exists>t'. timed_call clock kern (pre t) = Some t' \<and> True"
      using timed_call_effect [where kern = kern and st = "pre t" and C' = C' and clock = clock, OF C']
      by simp
  qed
  then show ?thesis by auto
qed

lemma call_zero_fill_effect:
  "now_calls (call_zero_fill ar t) = now_calls t \<and> kernel_calls (call_zero_fill ar t) = kernel_calls t \<and>
   call_times (call_zero_fill ar t) = call_times t \<and>
   history (call_zero_fill ar t) = history t @ [Zero_fill_call]"
  by (simp add: call_zero_fill_def)

lemma gemm_trials_returned:
  assumes "gemm_trials clock ar kern st = Some st'"
  shows "timed_rounds clock [Zero_fill_call] 15 st st'"
  using trial_loop_returned [where pre = "call_zero_fill ar" and prep = "[Zero_fill_call]"
      and reps = 15 and clock = clock and kern = kern and st = st and st' = st',
      OF call_zero_fill_effect]
    assms
  by (simp add: gemm_trials_def)

lemma spmm_trials_returned:
  assumes "spmm_trials clock kern st = Some st'"
  shows "timed_rounds clock [] 20 st st'"
  using trial_loop_returned [where pre = "\<lambda>t. t" and prep = "[]"
      and reps = 20 and clock = clock and kern = kern and st = st and st' = st']
    assms
  by (simp add: spmm_trials_def)

lemma gemm_trials_returns:
  assumes "\<forall>C. kern C \<noteq> None"
  shows "gemm_trials clock ar kern st \<noteq> None"
  using trial_loop_returns [OF assms, of 15 clock "call_zero_fill ar" st]
  by (simp add: gemm_trials_def)

lemma spmm_trials_returns:
  assumes "\<forall>C. kern C \<noteq> None"
  shows "spmm_trials clock kern st \<noteq> None"
  using trial_loop_returns [OF assms, of 20 clock "\<lambda>t. t" st]
  by (simp add: spmm_trials_def)

text \<open>
  C4, as stated, fails: there is no warm-up call. With a kernel that returns at once and
  a fresh trial state, the GEMM loop has called the kernel 15 times, not 16, and has
  recorded 15 samples, one for each call.
\<close>

theorem no_warm_up_call:
  "map_option kernel_calls
     (gemm_trials (\<lambda>i. real i) exact_ops Some
        \<lparr>now_calls = 0, kernel_calls = 0, Cbuf = [1 :: int], call_times = [], history = []\<rparr>) = Some 15 \<and>
   map_option (\<lambda>st. length (call_times st))
     (gemm_trials (\<lambda>i. real i) exact_ops Some
        \<lparr>now_calls = 0, kernel_calls = 0, Cbuf = [1 :: int], call_times = [], history = []\<rparr>) = Some 15 \<and>
   map_option kernel_calls
     (gemm_trials (\<lambda>i. real i) exact_ops Some
        \<lparr>now_calls = 0, kernel_calls = 0, Cbuf = [1 :: int], call_times = [], history = []\<rparr>) \<noteq> Some (15 + 1)"
proof -
  obtain st' where st': "gemm_trials (\<lambda>i. real i) exact_ops Some
        \<lparr>now_calls = 0, kernel_calls = 0, Cbuf = [1 :: int], call_times = [], history = []\<rparr> = Some st'"
    using gemm_trials_returns [of Some "\<lambda>i. real i" exact_ops
        "\<lparr>now_calls = 0, kernel_calls = 0, Cbuf = [1 :: int], call_times = [], history = []\<rparr>"]
    by auto
  have "kernel_calls st' = 15" "length (call_times st') = 15"
    using gemm_trials_returned [OF st'] by (simp_all add: timed_rounds_def)
  then show ?thesis using st' by simp
qed

text \<open>
  C4, amended. For every timed kernel configuration, a trial loop that has run to its end
  has called the kernel exactly \<open>reps\<close> times (15 for GEMM, 20 for SpMM), and there is no
  warm-up call: the calls made by the loop are, in this order and \<open>reps\<close> times over, (for
  GEMM) \<open>zero_fill\<close>, a reading of the clock, the call of the kernel and a second reading of
  the clock, and the sample recorded for a call of the kernel is the reading after it minus
  the reading before it, so that the statistics use exactly one sample for each call. The
  loop runs to its end whenever every call of the kernel returns.
\<close>

theorem trial_loops_time_every_call:
  "(\<forall>st'. gemm_trials clock ar gemm_kernel st = Some st' \<longrightarrow>
          timed_rounds clock [Zero_fill_call] 15 st st') \<and>
   ((\<forall>C. gemm_kernel C \<noteq> None) \<longrightarrow> gemm_trials clock ar gemm_kernel st \<noteq> None) \<and>
   (\<forall>su'. spmm_trials clock spmm_kernel su = Some su' \<longrightarrow> timed_rounds clock [] 20 su su') \<and>
   ((\<forall>C. spmm_kernel C \<noteq> None) \<longrightarrow> spmm_trials clock spmm_kernel su \<noteq> None)"
  using gemm_trials_returned [of clock ar gemm_kernel st] gemm_trials_returns [of gemm_kernel clock ar st]
    spmm_trials_returned [of clock spmm_kernel su] spmm_trials_returns [of spmm_kernel clock su]
  by blast

theorem trial_loops_time_every_call_witness:
  "(\<forall>C :: int list. Some C \<noteq> None) \<and>
   (\<exists>st'. gemm_trials (\<lambda>i. real i) exact_ops Some
            \<lparr>now_calls = 0, kernel_calls = 0, Cbuf = [1 :: int], call_times = [], history = []\<rparr> = Some st' \<and>
          kernel_calls st' = 15 \<and> now_calls st' = 30 \<and> call_times st' = replicate 15 1 \<and>
          history st' = concat (map (\<lambda>r. [Zero_fill_call, Clock_read (2 * r), Kernel_call,
                                           Clock_read (2 * r + 1)]) [0..<15])) \<and>
   (\<exists>su'. spmm_trials (\<lambda>i. real i) Some
            \<lparr>now_calls = 0, kernel_calls = 0, Cbuf = [1 :: int], call_times = [], history = []\<rparr> = Some su' \<and>
          kernel_calls su' = 20 \<and> now_calls su' = 40 \<and> call_times su' = replicate 20 1 \<and>
          history su' = concat (map (\<lambda>r. [Clock_read (2 * r), Kernel_call, Clock_read (2 * r + 1)])
                                    [0..<20]))"
proof -
  let ?s = "\<lparr>now_calls = 0, kernel_calls = 0, Cbuf = [1 :: int], call_times = [], history = []\<rparr>"
  note claim = trial_loops_time_every_call [of "\<lambda>i. real i" exact_ops Some ?s Some ?s]
  obtain st' where st': "gemm_trials (\<lambda>i. real i) exact_ops Some ?s = Some st'"
    using claim by auto
  obtain su' where su': "spmm_trials (\<lambda>i. real i) Some ?s = Some su'"
    using claim by auto
  have a: "timed_rounds (\<lambda>i. real i) [Zero_fill_call] 15 ?s st'" using claim st' by blast
  have b: "timed_rounds (\<lambda>i. real i) [] 20 ?s su'" using claim su' by blast
  have c: "map (\<lambda>r. real (2 * r + 1) - real (2 * r)) [0..<n] = replicate n 1" for n
    by (induction n) (simp_all add: replicate_append_same)
  show ?thesis using st' su' a b c by (simp add: timed_rounds_def)
qed
section \<open>CSR builder: assembling the rows\<close>

lemma length_rowptr_loop: "length (rowptr_loop cols t) = length cols + 1"
  by (induction cols arbitrary: t) simp_all

lemma rowptr_loop_nth:
  "i \<le> length cols \<Longrightarrow> rowptr_loop cols t ! i = int (t + length (concat (take i cols)))"
proof (induction cols arbitrary: t i)
  case Nil
  then show ?case by simp
next
  case (Cons c cols)
  show ?case
  proof (cases i)
    case 0
    then show ?thesis by simp
  next
    case (Suc j)
    then show ?thesis using Cons.prems Cons.IH [of j "t + length c"] by simp
  qed
qed

lemma fill_entries_concat:
  "length cols = length vals \<Longrightarrow>
   fill_entries cols vals (ci, va) =
     (ci @ concat cols, va @ concat (map2 (\<lambda>c v. take (length c) v) cols vals))"
proof (induction cols arbitrary: vals ci va)
  case Nil
  then show ?case by simp
next
  case (Cons c cols)
  then obtain v vals' where v: "vals = v # vals'" by (cases vals) auto
  then show ?case using Cons.prems Cons.IH [of vals' "ci @ c" "va @ take (length c) v"] by simp
qed

lemma length_concat_take_values:
  "length cols = length vals \<Longrightarrow> \<forall>i < length cols. length (cols ! i) \<le> length (vals ! i) \<Longrightarrow>
   length (concat (map2 (\<lambda>c v. take (length c) v) cols vals)) = length (concat cols)"
proof (induction cols arbitrary: vals)
  case Nil
  then show ?case by simp
next
  case (Cons c cols)
  then obtain v vals' where v: "vals = v # vals'" by (cases vals) auto
  have "length c \<le> length v" using Cons.prems(2) v by auto
  moreover have "\<forall>i < length cols. length (cols ! i) \<le> length (vals' ! i)"
    using Cons.prems(2) v by auto
  ultimately show ?case using Cons.prems(1) Cons.IH [of vals'] v by simp
qed

lemma concat_take_Suc:
  "i < length cols \<Longrightarrow> concat (take (Suc i) cols) = concat (take i cols) @ cols ! i"
  by (simp add: take_Suc_conv_app_nth)

lemma concat_split_row:
  "i < length cols \<Longrightarrow> concat cols = concat (take i cols) @ cols ! i @ concat (drop (Suc i) cols)"
proof -
  assume i: "i < length cols"
  have "cols = take i cols @ cols ! i # drop (Suc i) cols" using i by (simp add: id_take_nth_drop)
  then have "concat cols = concat (take i cols @ cols ! i # drop (Suc i) cols)" by simp
  then show ?thesis by simp
qed

text \<open>The slice of \<open>colidx\<close> between two consecutive row pointers is the row.\<close>

lemma row_slice_assemble:
  assumes "length cols = length vals" "i < length cols"
  shows "row_slice (assemble m k (rng, cols, vals)) i = cols ! i"
proof -
  have le: "i \<le> length cols" "Suc i \<le> length cols" using assms by simp_all
  have ci: "colidx (assemble m k (rng, cols, vals)) = concat cols"
    and rp: "rowptr (assemble m k (rng, cols, vals)) = rowptr_loop cols 0"
    using assms(1) by (simp_all add: assemble_def fill_entries_concat)
  have a: "nat (rowptr_loop cols 0 ! i) = length (concat (take i cols))"
    using rowptr_loop_nth [OF le(1), of 0] by simp
  have b: "nat (rowptr_loop cols 0 ! Suc i) = length (concat (take i cols)) + length (cols ! i)"
    using rowptr_loop_nth [OF le(2), of 0] concat_take_Suc [OF assms(2)] by simp
  show ?thesis
    unfolding row_slice_def ci rp a b
    by (subst concat_split_row [OF assms(2)]) simp
qed

lemma csr_invariant_assemble:
  assumes m: "0 \<le> m"
    and len: "length cols = nat m" "length vals = nat m"
    and rows: "\<forall>i < nat m. good_row k (cols ! i) \<and> length (cols ! i) \<le> length (vals ! i)"
  shows "csr_invariant (assemble m k (rng, cols, vals))"
proof -
  let ?A = "assemble m k (rng, cols, vals)"
  have lv: "length cols = length vals" using len by simp
  have ci: "colidx ?A = concat cols"
    and va: "csr_values ?A = concat (map2 (\<lambda>c v. take (length c) v) cols vals)"
    and rp: "rowptr ?A = rowptr_loop cols 0"
    and mk: "csr_m ?A = m" "csr_k ?A = k"
    using lv by (simp_all add: assemble_def fill_entries_concat)
  have 1: "length (rowptr ?A) = nat m + 1" by (simp add: rp length_rowptr_loop len)
  have 2: "rowptr ?A ! 0 = 0" using rowptr_loop_nth [of 0 cols 0] by (simp add: rp)
  have 3: "rowptr ?A ! nat m = int (length (colidx ?A))"
    using rowptr_loop_nth [of "nat m" cols 0] len by (simp add: rp ci)
  have 4: "length (colidx ?A) = length (csr_values ?A)"
    unfolding ci va
    by (rule length_concat_take_values [symmetric, OF lv]) (use rows len in auto)
  have 5: "rowptr ?A ! i < rowptr ?A ! Suc i" if "i < nat m" for i
  proof -
    have i: "i < length cols" using that len by simp
    have "cols ! i \<noteq> []" using rows that by (simp add: good_row_def)
    then have "length (concat (take i cols)) < length (concat (take (Suc i) cols))"
      by (simp add: concat_take_Suc [OF i])
    then show ?thesis
      using rowptr_loop_nth [of i cols 0] rowptr_loop_nth [of "Suc i" cols 0] i by (simp add: rp)
  qed
  have 6: "strictly_increasing (row_slice ?A i) \<and> (\<forall>c \<in> set (row_slice ?A i). 0 \<le> c \<and> c < csr_k ?A)"
    if "i < nat m" for i
  proof -
    have i: "i < length cols" using that len by simp
    have "row_slice ?A i = cols ! i" by (rule row_slice_assemble [OF lv i])
    then show ?thesis using rows that by (simp add: good_row_def strictly_increasing_def mk)
  qed
  have inc: "strictly_increasing (row_slice ?A i)" if "i < nat m" for i
    using 6 [OF that] by (rule conjunct1)
  have rng_ok: "\<forall>c \<in> set (row_slice ?A i). 0 \<le> c \<and> c < k" if "i < nat m" for i
    using 6 [OF that] by (simp add: mk)
  show ?thesis
    unfolding csr_invariant_def Let_def mk
    by (intro conjI allI impI) (simp_all only: 1 2 3 4 5 inc, rule rng_ok, assumption)
qed

section \<open>CSR builder: the rows of the three patterns\<close>

lemma strictly_sorted_remdups_adj:
  fixes xs :: "int list"
  shows "sorted xs \<Longrightarrow> sorted_wrt (<) (remdups_adj xs)"
  by (induction xs rule: remdups_adj.induct) (auto simp: less_le)

lemma good_row_sort_unique:
  assumes "cs \<noteq> []" "\<forall>c \<in> set cs. 0 \<le> c \<and> c < k"
  shows "good_row k (remdups_adj (sort cs))"
proof -
  have "length (sort cs) = length cs" by simp
  then have "sort cs \<noteq> []" using assms(1) by (metis length_0_conv)
  then show ?thesis
    using assms by (simp add: good_row_def strictly_sorted_remdups_adj remdups_adj_Nil_iff)
qed

lemma length_sort_unique: "length (remdups_adj (sort cs)) \<le> length (cs :: int list)"
  using remdups_adj_length [of "sort cs"] by simp

subsection \<open>Draws inside a window\<close>

lemma draw_entries_spec:
  assumes ok: "lib_ok L" and w: "lo \<le> hi"
  shows "draw_entries L lo hi t (rng, cs, vs) = (rng', cs', vs') \<Longrightarrow>
         length cs' = length cs + t \<and> length vs' = length vs + t \<and>
         set cs' \<subseteq> set cs \<union> {lo..hi}"
proof (induction t arbitrary: rng cs vs)
  case 0
  then show ?case by simp
next
  case (Suc t)
  obtain c rng1 where c: "uniform_int L lo hi rng = (c, rng1)" by (cases "uniform_int L lo hi rng")
  obtain v rng2 where v: "uniform_real L rng1 = (v, rng2)" by (cases "uniform_real L rng1")
  have "lo \<le> c \<and> c \<le> hi" using ok w c unfolding lib_ok_def by (metis fst_conv)
  moreover have "draw_entries L lo hi t (rng2, cs @ [c], vs @ [v]) = (rng', cs', vs')"
    using Suc.prems c v by simp
  ultimately show ?case using Suc.IH [of rng2 "cs @ [c]" "vs @ [v]"] by auto
qed

lemma rows_in_rangeD:
  assumes "rows_in_range k M cols vals" "i < M"
  shows "\<forall>c \<in> set (cols ! i). 0 \<le> c \<and> c < k" "length (cols ! i) \<le> length (vals ! i)"
    "length cols = M" "length vals = M"
  using assms by (simp_all add: rows_in_range_def)

lemma rows_in_range_update:
  assumes r: "rows_in_range k M cols vals" and i: "i < M"
    and c: "\<forall>c \<in> set cs. 0 \<le> c \<and> c < k" and l: "length cs \<le> length vs"
  shows "rows_in_range k M (cols[i := cs]) (vals[i := vs])"
  unfolding rows_in_range_def
proof (intro conjI allI impI)
  show "length (cols[i := cs]) = M" "length (vals[i := vs]) = M"
    using r by (simp_all add: rows_in_range_def)
next
  fix j
  assume j: "j < M"
  show "\<forall>c \<in> set (cols[i := cs] ! j). 0 \<le> c \<and> c < k"
    using rows_in_rangeD [OF r j] c i by (cases "j = i") simp_all
  show "length (cols[i := cs] ! j) \<le> length (vals[i := vs] ! j)"
    using rows_in_rangeD [OF r j] l i by (cases "j = i") simp_all
qed

text \<open>A window inside \<open>[0, k)\<close> gives a finished row and leaves the other rows alone.\<close>

lemma window_row_spec:
  assumes ok: "lib_ok L" and i: "0 \<le> i" "nat i < M"
    and w: "0 \<le> lo" "lo \<le> hi" "hi < k"
    and r: "rows_in_range k M cols vals"
  shows "\<exists>rng' cols' vals'.
           window_row L k density i lo hi (rng, cols, vals) = Inr (rng', cols', vals') \<and>
           rows_in_range k M cols' vals' \<and> good_row k (cols' ! nat i) \<and>
           (\<forall>j < M. j \<noteq> nat i \<longrightarrow> cols' ! j = cols ! j)"
proof -
  define target where
    "target = max 1 (min (hi - lo + 1)
       (cpp_round (real_of_int (hi - lo + 1) * min 1 (density * real_of_int k / real_of_int (hi - lo + 1)))))"
  have t: "0 < nat target" by (simp add: target_def)
  obtain rng' cs vs where d: "draw_entries L lo hi (nat target) (rng, rd cols i, rd vals i) = (rng', cs, vs)"
    by (cases "draw_entries L lo hi (nat target) (rng, rd cols i, rd vals i)")
  have old: "\<forall>c \<in> set (cols ! nat i). 0 \<le> c \<and> c < k" "length (cols ! nat i) \<le> length (vals ! nat i)"
    using rows_in_rangeD [OF r i(2)] by simp_all
  from draw_entries_spec [OF ok w(2) d]
  have s: "length cs = length (cols ! nat i) + nat target" "length vs = length (vals ! nat i) + nat target"
    "set cs \<subseteq> set (cols ! nat i) \<union> {lo..hi}"
    by (simp_all add: rd_def)
  have ne: "cs \<noteq> []" using s(1) t by auto
  have inr: "\<forall>c \<in> set cs. 0 \<le> c \<and> c < k" using s(3) old(1) w by fastforce
  have len: "length (remdups_adj (sort cs)) \<le> length vs"
    using length_sort_unique [of cs] s(1,2) old(2) by linarith
  have res: "window_row L k density i lo hi (rng, cols, vals)
             = Inr (rng', cols[nat i := remdups_adj (sort cs)], vals[nat i := vs])"
    using w(2) d by (simp add: window_row_def Let_def target_def wr_def)
  have "rows_in_range k M (cols[nat i := remdups_adj (sort cs)]) (vals[nat i := vs])"
    by (rule rows_in_range_update [OF r i(2) _ len]) (use inr in simp)
  moreover have "good_row k (cols[nat i := remdups_adj (sort cs)] ! nat i)"
    using good_row_sort_unique [OF ne inr] i(2) rows_in_rangeD(3) [OF r i(2)] by simp
  moreover have "\<forall>j < M. j \<noteq> nat i \<longrightarrow> cols[nat i := remdups_adj (sort cs)] ! j = cols ! j"
    by simp
  ultimately show ?thesis using res by blast
qed

lemma window_row_error: "hi < lo \<Longrightarrow> window_row L k density i lo hi s = Inl (Bad_dist_range lo hi)"
  by (cases s) (simp add: window_row_def Let_def)

subsection \<open>The loop over the rows\<close>

text \<open>
  The invariant \<open>P\<close> may depend on the row index; a row that reports an error ends the
  loop, so the rule speaks about the runs that return rows.
\<close>

lemma for_rows_rule:
  assumes "P a s"
    and "\<And>i t t'. a \<le> i \<Longrightarrow> i \<le> b \<Longrightarrow> P i t \<Longrightarrow> body i t = Inr t' \<Longrightarrow> P (i + 1) t'"
    and "for_rows body [a..b] s = Inr s'"
    and "a \<le> b + 1"
  shows "P (b + 1) s'"
  using assms
proof (induction a b arbitrary: s rule: upto.induct)
  case (1 a b)
  show ?case
  proof (cases "a \<le> b")
    case False
    then have "a = b + 1" using "1.prems"(4) by simp
    moreover have "s' = s" using "1.prems"(3) False by (simp add: upto.simps)
    ultimately show ?thesis using "1.prems"(1) by simp
  next
    case True
    then have u: "[a..b] = a # [a + 1..b]" by (simp add: upto.simps)
    obtain t where t: "body a s = Inr t" "for_rows body [a + 1..b] t = Inr s'"
      using "1.prems"(3) unfolding u by (cases "body a s") auto
    have Pt: "P (a + 1) t" using "1.prems"(2) [of a s t] True "1.prems"(1) t(1) by simp
    show ?thesis
    proof (rule "1.IH" [OF True Pt _ t(2)])
      fix i u u'
      assume "a + 1 \<le> i" "i \<le> b" "P i u" "body i u = Inr u'"
      then show "P (i + 1) u'" using "1.prems"(2) [of i u u'] by simp
    next
      show "a + 1 \<le> b + 1" using True by simp
    qed
  qed
qed

lemma for_rows_returns:
  assumes "P a s"
    and "\<And>i t. a \<le> i \<Longrightarrow> i \<le> b \<Longrightarrow> P i t \<Longrightarrow> \<exists>t'. body i t = Inr t' \<and> P (i + 1) t'"
  shows "\<exists>s'. for_rows body [a..b] s = Inr s'"
  using assms
proof (induction a b arbitrary: s rule: upto.induct)
  case (1 a b)
  show ?case
  proof (cases "a \<le> b")
    case False
    then show ?thesis by (simp add: upto.simps)
  next
    case True
    then have u: "[a..b] = a # [a + 1..b]" by (simp add: upto.simps)
    obtain t where t: "body a s = Inr t" "P (a + 1) t"
      using "1.prems"(2) [of a s] True "1.prems"(1) by auto
    have "\<exists>s'. for_rows body [a + 1..b] t = Inr s'"
    proof (rule "1.IH" [OF True t(2)])
      fix i u
      assume "a + 1 \<le> i" "i \<le> b" "P i u"
      then show "\<exists>t'. body i u = Inr t' \<and> P (i + 1) t'" using "1.prems"(2) [of i u] by simp
    qed
    then show ?thesis unfolding u using t(1) by simp
  qed
qed

lemma fold_upto_rule:
  assumes "P a s"
    and "\<And>i t. a \<le> i \<Longrightarrow> i \<le> b \<Longrightarrow> P i t \<Longrightarrow> P (i + 1) (body i t)"
    and "a \<le> b + 1"
  shows "P (b + 1) (fold body [a..b] s)"
  using assms
proof (induction a b arbitrary: s rule: upto.induct)
  case (1 a b)
  show ?case
  proof (cases "a \<le> b")
    case False
    then have "a = b + 1" using "1.prems"(3) by simp
    then show ?thesis using "1.prems"(1) False by (simp add: upto.simps)
  next
    case True
    then have u: "[a..b] = a # [a + 1..b]" by (simp add: upto.simps)
    have Pt: "P (a + 1) (body a s)" using "1.prems"(2) [of a s] True "1.prems"(1) by simp
    have "P (b + 1) (fold body [a + 1..b] (body a s))"
    proof (rule "1.IH" [OF True Pt])
      fix i u
      assume "a + 1 \<le> i" "i \<le> b" "P i u"
      then show "P (i + 1) (body i u)" using "1.prems"(2) [of i u] by simp
    next
      show "a + 1 \<le> b + 1" using True by simp
    qed
    then show ?thesis unfolding u by simp
  qed
qed

subsection \<open>Band pattern\<close>

lemma div_less_bound:
  fixes a m k :: int
  assumes "0 < m" "a < m * k"
  shows "a div m < k"
proof (rule ccontr)
  assume "\<not> a div m < k"
  then have "m * k \<le> m * (a div m)" using assms(1) by (intro mult_left_mono) simp_all
  moreover have "m * (a div m) + a mod m = a" by simp
  moreover have "0 \<le> a mod m" using assms(1) by simp
  ultimately show False using assms(2) by linarith
qed

lemma band_window:
  fixes i m k bw :: int
  assumes "0 \<le> i" "i < m" "1 \<le> k" "0 \<le> bw"
  shows "0 \<le> max 0 (idiv (i * k) (max 1 m) - bw)"
    and "max 0 (idiv (i * k) (max 1 m) - bw) \<le> min (k - 1) (idiv (i * k) (max 1 m) + bw)"
    and "min (k - 1) (idiv (i * k) (max 1 m) + bw) < k"
proof -
  have m: "max 1 m = m" "0 < m" using assms by simp_all
  have ik: "0 \<le> i * k" using assms by simp
  have c: "idiv (i * k) (max 1 m) = (i * k) div m" using ik m by (simp add: idiv_nonneg)
  have c0: "0 \<le> (i * k) div m" using ik m by (simp add: pos_imp_zdiv_nonneg_iff)
  have "i * k < m * k" using assms by (intro mult_strict_right_mono) simp_all
  then have c1: "(i * k) div m < k" using m by (intro div_less_bound) simp_all
  show "0 \<le> max 0 (idiv (i * k) (max 1 m) - bw)" by simp
  show "max 0 (idiv (i * k) (max 1 m) - bw) \<le> min (k - 1) (idiv (i * k) (max 1 m) + bw)"
    unfolding c using c0 c1 assms(4) by simp
  show "min (k - 1) (idiv (i * k) (max 1 m) + bw) < k" by simp
qed

lemma band_row_spec:
  assumes ok: "lib_ok L" and i: "0 \<le> i" "i < m" and k: "1 \<le> k" and bw: "0 \<le> bw"
    and r: "rows_in_range k (nat m) cols vals"
  shows "\<exists>rng' cols' vals'.
           band_row L m k density bw i (rng, cols, vals) = Inr (rng', cols', vals') \<and>
           rows_in_range k (nat m) cols' vals' \<and> good_row k (cols' ! nat i) \<and>
           (\<forall>j < nat m. j \<noteq> nat i \<longrightarrow> cols' ! j = cols ! j)"
  unfolding band_row_def Let_def
  by (rule window_row_spec [OF ok i(1) _ band_window [OF i k bw] r]) (use i in linarith)

subsection \<open>Block-diagonal pattern\<close>

lemma blockdiag_window:
  fixes i bm bk k :: int
  assumes "0 \<le> i" "1 \<le> bm" "1 \<le> bk"
  shows "0 \<le> min 7 (idiv i bm) * bk"
    and "min (k - 1) (min 7 (idiv i bm) * bk + bk - 1) < k"
proof -
  have "idiv i bm = i div bm" using assms by (simp add: idiv_nonneg)
  moreover have "0 \<le> i div bm" using assms by (simp add: pos_imp_zdiv_nonneg_iff)
  ultimately show "0 \<le> min 7 (idiv i bm) * bk" using assms by simp
  show "min (k - 1) (min 7 (idiv i bm) * bk + bk - 1) < k" by simp
qed

text \<open>A row of the block-diagonal pattern is finished, or its window is empty and it fails.\<close>

lemma blockdiag_row_spec:
  assumes ok: "lib_ok L" and i: "0 \<le> i" "i < m" and b: "1 \<le> bm" "1 \<le> bk"
    and r: "rows_in_range k (nat m) cols vals"
    and res: "blockdiag_row L k density 8 bm bk i (rng, cols, vals) = Inr (rng', cols', vals')"
  shows "rows_in_range k (nat m) cols' vals' \<and> good_row k (cols' ! nat i) \<and>
         (\<forall>j < nat m. j \<noteq> nat i \<longrightarrow> cols' ! j = cols ! j)"
proof -
  let ?lo = "min 7 (idiv i bm) * bk"
  let ?hi = "min (k - 1) (?lo + bk - 1)"
  have w: "window_row L k density i ?lo ?hi (rng, cols, vals) = Inr (rng', cols', vals')"
    using res by (simp add: blockdiag_row_def Let_def)
  have "\<not> ?hi < ?lo" using w window_row_error [of ?hi ?lo L k density i "(rng, cols, vals)"] by auto
  then have le: "?lo \<le> ?hi" by (simp only: not_less)
  have ni: "nat i < nat m" using i by linarith
  from window_row_spec [OF ok i(1) ni blockdiag_window(1) [OF i(1) b] le blockdiag_window(2) [OF i(1) b] r,
      of density rng]
  show ?thesis using w by auto
qed

subsection \<open>Uniform pattern\<close>

lemma uniform_draw_spec:
  assumes ok: "lib_ok L" and m: "1 \<le> m" and k: "1 \<le> k"
    and rows: "rows_in_range k (nat m) cols vals"
    and res: "uniform_draw L m k (rng, cols, vals) = (rng', cols', vals')"
  shows "rows_in_range k (nat m) cols' vals'"
proof -
  obtain r rng1 where r: "uniform_int L 0 (m - 1) rng = (r, rng1)" by (cases "uniform_int L 0 (m - 1) rng")
  obtain c rng2 where c: "uniform_int L 0 (k - 1) rng1 = (c, rng2)" by (cases "uniform_int L 0 (k - 1) rng1")
  obtain v rng3 where v: "uniform_real L rng2 = (v, rng3)" by (cases "uniform_real L rng2")
  have rr: "0 \<le> r \<and> r \<le> m - 1"
    using ok m r unfolding lib_ok_def by (metis diff_ge_0_iff_ge fst_conv)
  have cc: "0 \<le> c \<and> c \<le> k - 1"
    using ok k c unfolding lib_ok_def by (metis diff_ge_0_iff_ge fst_conv)
  have nr: "nat r < nat m" using rr m by linarith
  have "rows_in_range k (nat m) (cols[nat r := cols ! nat r @ [c]]) (vals[nat r := vals ! nat r @ [v]])"
    by (rule rows_in_range_update [OF rows nr])
      (use rows_in_rangeD [OF rows nr] cc in auto)
  moreover have "cols' = cols[nat r := cols ! nat r @ [c]]" "vals' = vals[nat r := vals ! nat r @ [v]]"
    using res r c v by (simp_all add: uniform_draw_def wr_def rd_def)
  ultimately show ?thesis by simp
qed

lemma uniform_draws_spec:
  assumes ok: "lib_ok L" and m: "1 \<le> m" and k: "1 \<le> k"
  shows "rows_in_range k (nat m) cols vals \<Longrightarrow>
         uniform_draws L m k t (rng, cols, vals) = (rng', cols', vals') \<Longrightarrow>
         rows_in_range k (nat m) cols' vals'"
proof (induction t arbitrary: rng cols vals)
  case 0
  then show ?case by simp
next
  case (Suc t)
  obtain rng1 cols1 vals1 where d: "uniform_draw L m k (rng, cols, vals) = (rng1, cols1, vals1)"
    by (cases "uniform_draw L m k (rng, cols, vals)")
  have "rows_in_range k (nat m) cols1 vals1"
    by (rule uniform_draw_spec [OF ok m k Suc.prems(1) d])
  moreover have "uniform_draws L m k t (rng1, cols1, vals1) = (rng', cols', vals')"
    using Suc.prems(2) d by simp
  ultimately show ?case by (rule Suc.IH)
qed

text \<open>The deduplication loop is \<open>remdups_adj\<close> with \<open>last_c\<close> as a sentinel in front.\<close>

lemma dedup_loop_spec:
  "length rc2 = length rv2 \<Longrightarrow>
   fst (dedup_loop rc rv idx last_c (rc2, rv2)) = rc2 @ tl (remdups_adj (last_c # map ((!) rc) idx)) \<and>
   length (snd (dedup_loop rc rv idx last_c (rc2, rv2))) = length (fst (dedup_loop rc rv idx last_c (rc2, rv2)))"
proof (induction idx arbitrary: last_c rc2 rv2)
  case Nil
  then show ?case by simp
next
  case (Cons ix idx)
  show ?case
  proof (cases "rc ! ix = last_c")
    case True
    then show ?thesis using Cons.IH [OF Cons.prems, of last_c] by simp
  next
    case False
    have l: "length (rc2 @ [rc ! ix]) = length (rv2 @ [rv ! ix])" using Cons.prems by simp
    have "remdups_adj (rc ! ix # map ((!) rc) idx) = rc ! ix # tl (remdups_adj (rc ! ix # map ((!) rc) idx))"
      by (simp add: remdups_adj_Cons')
    then show ?thesis using Cons.IH [OF l, of "rc ! ix"] False by (simp add: Let_def)
  qed
qed

lemma sorted_index_columns:
  "sorted (map ((!) rc) (sort_key (\<lambda>a. rc ! a) [0..<length rc]))"
  "set (map ((!) rc) (sort_key (\<lambda>a. rc ! a) [0..<length rc])) = set (rc :: int list)"
proof -
  show "sorted (map ((!) rc) (sort_key (\<lambda>a. rc ! a) [0..<length rc]))"
    using sorted_sort_key [of "\<lambda>a. rc ! a" "[0..<length rc]"] by simp
  have "set (map ((!) rc) (sort_key (\<lambda>a. rc ! a) [0..<length rc])) = (!) rc ` {0..<length rc}"
    by simp
  also have "\<dots> = set rc" by (auto simp: set_conv_nth)
  finally show "set (map ((!) rc) (sort_key (\<lambda>a. rc ! a) [0..<length rc])) = set rc" .
qed

text \<open>Sorting and deduplicating a non-empty row with columns in \<open>[0, k)\<close>.\<close>

lemma dedup_sorted_row:
  assumes ne: "rc \<noteq> []" and inr: "\<forall>c \<in> set rc. 0 \<le> c \<and> c < k"
    and d: "dedup_loop rc rv (sort_key (\<lambda>a. rc ! a) [0..<length rc]) (- 1) ([], []) = (rc2, rv2)"
  shows "good_row k rc2" and "length rv2 = length rc2" and "set rc2 = set rc"
proof -
  let ?ys = "map ((!) rc) (sort_key (\<lambda>a. rc ! a) [0..<length rc])"
  have ys: "sorted ?ys" "set ?ys = set rc" by (rule sorted_index_columns)+
  have "length ?ys = length rc" by simp
  then have yne: "?ys \<noteq> []" using ne by (metis length_0_conv)
  then obtain y ys' where y: "?ys = y # ys'" by (cases ?ys) auto
  have "y \<in> set rc" using ys(2) y by (metis list.set_intros(1))
  then have "y \<noteq> - 1" using inr by auto
  then have tl: "tl (remdups_adj (- 1 # ?ys)) = remdups_adj ?ys" unfolding y by simp
  from dedup_loop_spec [of "[]" "[]" rc rv "sort_key (\<lambda>a. rc ! a) [0..<length rc]" "- 1"]
  have rc2: "rc2 = remdups_adj ?ys" and l: "length rv2 = length rc2"
    unfolding d tl by simp_all
  show "length rv2 = length rc2" by (rule l)
  show "set rc2 = set rc" unfolding rc2 using ys(2) by simp
  show "good_row k rc2"
    unfolding rc2 good_row_def
    using yne ys inr by (simp add: strictly_sorted_remdups_adj remdups_adj_Nil_iff)
qed

lemma uniform_row_spec:
  assumes ok: "lib_ok L" and k: "1 \<le> k" and r: "0 \<le> r" "nat r < M"
    and rows: "rows_in_range k M cols vals"
    and res: "uniform_row L k r (rng, cols, vals) = (rng', cols', vals')"
  shows "rows_in_range k M cols' vals' \<and> good_row k (cols' ! nat r) \<and>
         (\<forall>j < M. j \<noteq> nat r \<longrightarrow> cols' ! j = cols ! j) \<and>
         row_finished_from (cols ! nat r) (cols' ! nat r)"
proof -
  obtain c rng1 where c: "uniform_int L 0 (k - 1) rng = (c, rng1)" by (cases "uniform_int L 0 (k - 1) rng")
  obtain v rng2 where v: "uniform_real L rng1 = (v, rng2)" by (cases "uniform_real L rng1")
  have cc: "0 \<le> c \<and> c \<le> k - 1"
    using ok k c unfolding lib_ok_def by (metis diff_ge_0_iff_ge fst_conv)
  define rc where "rc = (if cols ! nat r = [] then cols ! nat r @ [c] else cols ! nat r)"
  define rv where "rv = (if cols ! nat r = [] then vals ! nat r @ [v] else vals ! nat r)"
  obtain rc2 rv2 where d:
    "dedup_loop rc rv (sort_key (\<lambda>a. rc ! a) [0..<length rc]) (- 1) ([], []) = (rc2, rv2)"
    by (cases "dedup_loop rc rv (sort_key (\<lambda>a. rc ! a) [0..<length rc]) (- 1) ([], [])")
  have ne: "rc \<noteq> []" by (simp add: rc_def)
  have inr: "\<forall>c \<in> set rc. 0 \<le> c \<and> c < k"
    using rows_in_rangeD(1) [OF rows r(2)] cc by (auto simp: rc_def)
  note g = dedup_sorted_row [OF ne inr d]
  have out: "cols' = cols[nat r := rc2]" "vals' = vals[nat r := rv2]"
    using res c v d by (auto simp: uniform_row_def Let_def rd_def wr_def rc_def rv_def split: if_splits)
  have "rows_in_range k M (cols[nat r := rc2]) (vals[nat r := rv2])"
    by (rule rows_in_range_update [OF rows r(2)]) (use g in \<open>simp_all add: good_row_def\<close>)
  moreover have "good_row k (cols[nat r := rc2] ! nat r)"
    using g(1) rows_in_rangeD(3) [OF rows r(2)] r(2) by simp
  moreover have "row_finished_from (cols ! nat r) (cols[nat r := rc2] ! nat r)"
    using g(3) rows_in_rangeD(3) [OF rows r(2)] r(2) by (auto simp: row_finished_from_def rc_def)
  ultimately show ?thesis unfolding out by simp
qed

subsection \<open>The builder\<close>

lemma rows_in_range_init: "rows_in_range k M (replicate M []) (replicate M [])"
  by (simp add: rows_in_range_def)

lemma for_rows_total:
  assumes init: "P a s"
    and body: "\<And>i t. a \<le> i \<Longrightarrow> i \<le> b \<Longrightarrow> P i t \<Longrightarrow> \<exists>t'. body i t = Inr t' \<and> P (i + 1) t'"
    and le: "a \<le> b + 1"
  shows "\<exists>s'. for_rows body [a..b] s = Inr s' \<and> P (b + 1) s'"
proof -
  have "\<exists>s'. for_rows body [a..b] s = Inr s'"
  proof (rule for_rows_returns [where P = P])
    show "P a s" by (rule init)
  next
    fix i t
    assume "a \<le> i" "i \<le> b" "P i t"
    then show "\<exists>t'. body i t = Inr t' \<and> P (i + 1) t'" by (rule body)
  qed
  then obtain s' where s': "for_rows body [a..b] s = Inr s'" by blast
  have "P (b + 1) s'"
  proof (rule for_rows_rule [where P = P, OF init _ s' le])
    fix i t t'
    assume "a \<le> i" "i \<le> b" "P i t" "body i t = Inr t'"
    then show "P (i + 1) t'" using body [of i t] by auto
  qed
  then show ?thesis using s' by blast
qed

lemma for_rows_fails:
  assumes "i \<in> set is" and "\<And>s. \<exists>e. body i s = Inl e"
  shows "\<exists>e. for_rows body is s = Inl e"
  using assms(1)
proof (induction "is" arbitrary: s)
  case Nil
  then show ?case by simp
next
  case (Cons j js)
  show ?case
  proof (cases "body j s")
    case (Inl e)
    then show ?thesis by simp
  next
    case (Inr t)
    then have "j \<noteq> i" using assms(2) [of s] by auto
    then have "i \<in> set js" using Cons.prems by simp
    then show ?thesis using Cons.IH [of t] Inr by simp
  qed
qed

text \<open>The invariant of the loops over the rows: the rows below \<open>i\<close> are finished.\<close>

lemma finished_step:
  assumes i: "0 \<le> i" "i < m"
    and fin: "\<forall>j < nat i. good_row k (cols ! j)"
    and new: "good_row k (cols' ! nat i)" "\<forall>j < nat m. j \<noteq> nat i \<longrightarrow> cols' ! j = cols ! j"
  shows "\<forall>j < nat (i + 1). good_row k (cols' ! j)"
proof (intro allI impI)
  fix j
  assume j: "j < nat (i + 1)"
  show "good_row k (cols' ! j)"
  proof (cases "j = nat i")
    case True
    then show ?thesis using new(1) by simp
  next
    case False
    then have "j < nat i" "j < nat m" using j i by linarith+
    then show ?thesis using fin new(2) False by simp
  qed
qed

lemma band_rows:
  assumes ok: "lib_ok L" and m: "0 \<le> m" and k: "1 \<le> k" and bw: "0 \<le> bw"
  shows "\<exists>rng cols vals.
           for_rows (band_row L m k density bw) [0..m - 1] (rng_init, replicate (nat m) [], replicate (nat m) [])
             = Inr (rng, cols, vals) \<and>
           rows_in_range k (nat m) cols vals \<and> (\<forall>j < nat m. good_row k (cols ! j))"
proof -
  define P where "P = (\<lambda>i (s :: 'a \<times> int list list \<times> 'b list list). case s of (rng, cols, vals) \<Rightarrow>
      rows_in_range k (nat m) cols vals \<and> (\<forall>j < nat i. good_row k (cols ! j)))"
  have "\<exists>s'. for_rows (band_row L m k density bw) [0..m - 1]
               (rng_init, replicate (nat m) [], replicate (nat m) []) = Inr s' \<and> P (m - 1 + 1) s'"
  proof (rule for_rows_total [where P = P])
    show "P 0 (rng_init, replicate (nat m) [], replicate (nat m) [])"
      by (simp add: P_def rows_in_range_init)
    show "0 \<le> m - 1 + 1" using m by simp
  next
    fix i t
    assume i: "0 \<le> i" "i \<le> m - 1" and t: "P i t"
    obtain rng cols vals where s: "t = (rng, cols, vals)" by (cases t)
    have im: "i < m" using i by simp
    from band_row_spec [OF ok i(1) im k bw, of cols vals density rng] t
    obtain rng' cols' vals' where
      r: "band_row L m k density bw i (rng, cols, vals) = Inr (rng', cols', vals')"
        "rows_in_range k (nat m) cols' vals'" "good_row k (cols' ! nat i)"
        "\<forall>j < nat m. j \<noteq> nat i \<longrightarrow> cols' ! j = cols ! j"
      unfolding s P_def by auto
    have "\<forall>j < nat (i + 1). good_row k (cols' ! j)"
      by (rule finished_step [where cols = cols, OF i(1) im _ r(3,4)]) (use t in \<open>simp add: s P_def\<close>)
    then show "\<exists>t'. band_row L m k density bw i t = Inr t' \<and> P (i + 1) t'"
      using r(1,2) unfolding s P_def by simp
  qed
  then show ?thesis by (auto simp: P_def)
qed

lemma blockdiag_rows:
  assumes ok: "lib_ok L" and m: "0 \<le> m" and b: "1 \<le> bm" "1 \<le> bk"
    and res: "for_rows (blockdiag_row L k density 8 bm bk) [0..m - 1]
                (rng_init, replicate (nat m) [], replicate (nat m) []) = Inr (rng, cols, vals)"
  shows "rows_in_range k (nat m) cols vals \<and> (\<forall>j < nat m. good_row k (cols ! j))"
proof -
  define P where "P = (\<lambda>i (s :: 'a \<times> int list list \<times> 'b list list). case s of (rng, cols, vals) \<Rightarrow>
      rows_in_range k (nat m) cols vals \<and> (\<forall>j < nat i. good_row k (cols ! j)))"
  have "P (m - 1 + 1) (rng, cols, vals)"
  proof (rule for_rows_rule [where P = P, OF _ _ res])
    show "P 0 (rng_init, replicate (nat m) [], replicate (nat m) [])"
      by (simp add: P_def rows_in_range_init)
    show "0 \<le> m - 1 + 1" using m by simp
  next
    fix i t t'
    assume i: "0 \<le> i" "i \<le> m - 1" and t: "P i t" and r: "blockdiag_row L k density 8 bm bk i t = Inr t'"
    obtain rng cols vals where s: "t = (rng, cols, vals)" by (cases t)
    obtain rng' cols' vals' where s': "t' = (rng', cols', vals')" by (cases t')
    have im: "i < m" using i by simp
    have rr: "rows_in_range k (nat m) cols vals" using t by (simp add: s P_def)
    note sp = blockdiag_row_spec [OF ok i(1) im b rr r [unfolded s s']]
    have "\<forall>j < nat (i + 1). good_row k (cols' ! j)"
      by (rule finished_step [where cols = cols, OF i(1) im]) (use t sp in \<open>simp_all add: s P_def\<close>)
    then show "P (i + 1) t'" using sp unfolding s' P_def by simp
  qed
  then show ?thesis by (simp add: P_def)
qed

lemma finished_from_step:
  assumes i: "0 \<le> i" "i < m"
    and inv: "\<forall>j < nat m. (j < nat i \<longrightarrow> row_finished_from (d ! j) (cols ! j)) \<and>
                          (nat i \<le> j \<longrightarrow> cols ! j = d ! j)"
    and new: "row_finished_from (cols ! nat i) (cols' ! nat i)"
      "\<forall>j < nat m. j \<noteq> nat i \<longrightarrow> cols' ! j = cols ! j"
  shows "\<forall>j < nat m. (j < nat (i + 1) \<longrightarrow> row_finished_from (d ! j) (cols' ! j)) \<and>
                       (nat (i + 1) \<le> j \<longrightarrow> cols' ! j = d ! j)"
proof (intro allI impI conjI)
  fix j
  assume j: "j < nat m" "j < nat (i + 1)"
  show "row_finished_from (d ! j) (cols' ! j)"
  proof (cases "j = nat i")
    case True
    then have "cols ! nat i = d ! nat i" using inv j(1) by simp
    then show ?thesis using new(1) True by simp
  next
    case False
    then have "j < nat i" using j i by linarith
    then show ?thesis using inv new(2) j(1) False by simp
  qed
next
  fix j
  assume j: "j < nat m" "nat (i + 1) \<le> j"
  then have "j \<noteq> nat i" "nat i \<le> j" using i by linarith+
  then show "cols' ! j = d ! j" using inv new(2) j(1) by simp
qed

lemma uniform_rows:
  assumes ok: "lib_ok L" and m: "1 \<le> m" and k: "1 \<le> k"
    and res: "fold (uniform_row L k) [0..m - 1]
                (uniform_draws L m k t (rng_init, replicate (nat m) [], replicate (nat m) [])) = (rng, cols, vals)"
  shows "rows_in_range k (nat m) cols vals \<and> (\<forall>j < nat m. good_row k (cols ! j)) \<and>
         (\<forall>j < nat m. row_finished_from
            (fst (snd (uniform_draws L m k t (rng_init, replicate (nat m) [], replicate (nat m) []))) ! j)
            (cols ! j))"
proof -
  obtain rng1 cols1 vals1 where
    d: "uniform_draws L m k t (rng_init, replicate (nat m) [], replicate (nat m) []) = (rng1, cols1, vals1)"
    by (cases "uniform_draws L m k t (rng_init, replicate (nat m) [], replicate (nat m) [])")
  define P where "P = (\<lambda>i (s :: 'a \<times> int list list \<times> 'b list list). case s of (rng, cols, vals) \<Rightarrow>
      rows_in_range k (nat m) cols vals \<and> (\<forall>j < nat i. good_row k (cols ! j)) \<and>
      (\<forall>j < nat m. (j < nat i \<longrightarrow> row_finished_from (cols1 ! j) (cols ! j)) \<and>
                     (nat i \<le> j \<longrightarrow> cols ! j = cols1 ! j)))"
  have r1: "rows_in_range k (nat m) cols1 vals1"
    by (rule uniform_draws_spec [OF ok m k rows_in_range_init d])
  have "P (m - 1 + 1) (fold (uniform_row L k) [0..m - 1] (rng1, cols1, vals1))"
  proof (rule fold_upto_rule [where P = P])
    show "P 0 (rng1, cols1, vals1)" using r1 by (simp add: P_def)
    show "0 \<le> m - 1 + 1" using m by simp
  next
    fix i u
    assume i: "0 \<le> i" "i \<le> m - 1" and u: "P i u"
    obtain rng cols vals where s: "u = (rng, cols, vals)" by (cases u)
    obtain rng' cols' vals' where s': "uniform_row L k i (rng, cols, vals) = (rng', cols', vals')"
      by (cases "uniform_row L k i (rng, cols, vals)")
    have im: "i < m" "nat i < nat m" using i by linarith+
    have rr: "rows_in_range k (nat m) cols vals" using u by (simp add: s P_def)
    note sp = uniform_row_spec [OF ok k i(1) im(2) rr s']
    have a: "\<forall>j < nat (i + 1). good_row k (cols' ! j)"
      by (rule finished_step [where cols = cols, OF i(1) im(1)]) (use u sp in \<open>simp_all add: s P_def\<close>)
    have b: "\<forall>j < nat m. (j < nat (i + 1) \<longrightarrow> row_finished_from (cols1 ! j) (cols' ! j)) \<and>
                        (nat (i + 1) \<le> j \<longrightarrow> cols' ! j = cols1 ! j)"
      by (rule finished_from_step [where cols = cols, OF i(1) im(1)]) (use u sp in \<open>simp_all add: s P_def\<close>)
    show "P (i + 1) (uniform_row L k i u)" using sp a b unfolding s s' P_def by simp
  qed
  then have "P m (rng, cols, vals)" using res unfolding d by simp
  then show ?thesis unfolding d using m by (simp add: P_def)
qed

lemma csr_invariant_rows:
  assumes "0 \<le> m" "rows_in_range k (nat m) cols vals" "\<forall>j < nat m. good_row k (cols ! j)"
  shows "csr_invariant (assemble m k (rng, cols, vals))"
    and "csr_m (assemble m k (rng, cols, vals)) = m"
    and "csr_k (assemble m k (rng, cols, vals)) = k"
proof -
  show "csr_invariant (assemble m k (rng, cols, vals))"
    by (rule csr_invariant_assemble [OF assms(1)]) (use assms(2,3) in \<open>auto simp: rows_in_range_def\<close>)
  have "length cols = length vals" using assms(2) by (simp add: rows_in_range_def)
  then show "csr_m (assemble m k (rng, cols, vals)) = m" "csr_k (assemble m k (rng, cols, vals)) = k"
    by (simp_all add: assemble_def fill_entries_concat)
qed

lemma bw_nonneg: "0 \<le> max 1 (x :: int)"
  by simp

text \<open>
  Whenever the builder returns a matrix, for any of the patterns, the matrix satisfies the
  CSR invariant.
\<close>

lemma make_random_csr_invariant:
  assumes ok: "lib_ok L" and m: "1 \<le> m" and k: "1 \<le> k"
    and res: "make_random_csr L m k density pattern seed = Inr A"
  shows "csr_invariant A \<and> csr_m A = m \<and> csr_k A = k"
proof -
  have m0: "0 \<le> m" using m by simp
  consider (band) "pattern = ''band''"
    | (blockdiag) "pattern \<noteq> ''band''" "pattern = ''blockdiag''"
    | (uniform) "pattern \<noteq> ''band''" "pattern \<noteq> ''blockdiag''"
    by blast
  then show ?thesis
  proof cases
    case band
    then obtain s where s: "for_rows (band_row L m k density
        (max 1 (cpp_round (real_of_int k * min (20 / 100) (max (1 / 100) (density * 5))))))
        [0..m - 1] (seed_engine L seed, replicate (nat m) [], replicate (nat m) []) = Inr s"
      and A: "A = assemble m k s"
      using res m k by (auto simp: make_random_csr_def Let_def split: sum.splits)
    obtain rng cols vals where t: "s = (rng, cols, vals)" by (cases s)
    from band_rows [where bw = "max 1 (cpp_round (real_of_int k * min (20 / 100) (max (1 / 100) (density * 5))))"
        and density = density and rng_init = "seed_engine L seed", OF ok m0 k bw_nonneg] s
    have "rows_in_range k (nat m) cols vals \<and> (\<forall>j < nat m. good_row k (cols ! j))"
      unfolding t by auto
    then show ?thesis unfolding A t using csr_invariant_rows [OF m0, of k cols vals rng] by simp
  next
    case blockdiag
    then obtain s where s: "for_rows (blockdiag_row L k density 8 (max 1 (idiv m 8)) (max 1 (idiv k 8)))
        [0..m - 1] (seed_engine L seed, replicate (nat m) [], replicate (nat m) []) = Inr s"
      and A: "A = assemble m k s"
      using res m k by (auto simp: make_random_csr_def Let_def split: sum.splits)
    obtain rng cols vals where t: "s = (rng, cols, vals)" by (cases s)
    from blockdiag_rows [OF ok m0 _ _ s [unfolded t]]
    have "rows_in_range k (nat m) cols vals \<and> (\<forall>j < nat m. good_row k (cols ! j))"
      by simp
    then show ?thesis unfolding A t using csr_invariant_rows [OF m0, of k cols vals rng] by simp
  next
    case uniform
    define s where "s = fold (uniform_row L k) [0..m - 1]
        (uniform_draws L m k (nat (max m (cpp_round (real_of_int m * real_of_int k * density))))
           (seed_engine L seed, replicate (nat m) [], replicate (nat m) []))"
    have A: "A = assemble m k s"
      using res m k uniform by (auto simp: make_random_csr_def Let_def s_def)
    obtain rng cols vals where t: "s = (rng, cols, vals)" by (cases s)
    from uniform_rows [OF ok m k t [unfolded s_def]]
    have "rows_in_range k (nat m) cols vals \<and> (\<forall>j < nat m. good_row k (cols ! j))" by simp
    then show ?thesis unfolding A t using csr_invariant_rows [OF m0, of k cols vals rng] by simp
  qed
qed

text \<open>The uniform and the band pattern always return a matrix.\<close>

lemma make_random_csr_returns:
  assumes ok: "lib_ok L" and m: "1 \<le> m" and k: "1 \<le> k" and p: "pattern \<noteq> ''blockdiag''"
  shows "\<exists>A. make_random_csr L m k density pattern seed = Inr A"
proof (cases "pattern = ''band''")
  case True
  have m0: "0 \<le> m" using m by simp
  from band_rows [where bw = "max 1 (cpp_round (real_of_int k * min (20 / 100) (max (1 / 100) (density * 5))))"
      and density = density and rng_init = "seed_engine L seed", OF ok m0 k bw_nonneg]
  show ?thesis using True m k by (auto simp: make_random_csr_def Let_def)
next
  case False
  then show ?thesis using p m k by (simp add: make_random_csr_def Let_def)
qed

section \<open>CSR builder: the claims\<close>


lemma unknown_pattern_run:
  "make_random_csr counter_lib 1 1 1 ''diagonal'' 0
     = Inr \<lparr>csr_m = 1, csr_k = 1, rowptr = [0, 1], colidx = [0], csr_values = [2]\<rparr>"
  "make_random_csr counter_lib 1 1 1 ''uniform'' 0
     = Inr \<lparr>csr_m = 1, csr_k = 1, rowptr = [0, 1], colidx = [0], csr_values = [2]\<rparr>"
  by code_simp+


text \<open>
  C1, as stated, fails: a pattern name that is none of the three is not reported. The name
  \<open>diagonal\<close> builds the matrix that \<open>uniform\<close> builds.
\<close>

theorem unknown_pattern_builds_matrix:
  "make_random_csr counter_lib 1 1 1 ''diagonal'' 0
     = Inr \<lparr>csr_m = 1, csr_k = 1, rowptr = [0, 1], colidx = [0], csr_values = [2]\<rparr> \<and>
   make_random_csr counter_lib 1 1 1 ''diagonal'' 0 = make_random_csr counter_lib 1 1 1 ''uniform'' 0"
  by (simp add: unknown_pattern_run)

text \<open>
  C1, amended. Every pattern name other than \<open>band\<close> and \<open>blockdiag\<close> selects the
  uniform pattern: for \<open>m \<ge> 1\<close> and \<open>k \<ge> 1\<close> the builder returns the matrix it
  returns for \<open>uniform\<close>, and no error.
\<close>

theorem unknown_pattern_is_uniform:
  assumes "pattern \<noteq> ''band''" and "pattern \<noteq> ''blockdiag''" and "1 \<le> m" and "1 \<le> k"
  shows "make_random_csr L m k density pattern seed = make_random_csr L m k density ''uniform'' seed \<and>
         (\<exists>A. make_random_csr L m k density pattern seed = Inr A)"
  using assms by (simp add: make_random_csr_def Let_def)

theorem unknown_pattern_is_uniform_witness:
  "''diagonal'' \<noteq> ''band'' \<and> ''diagonal'' \<noteq> ''blockdiag'' \<and> (1 :: int) \<le> 1 \<and>
   make_random_csr counter_lib 1 1 1 ''diagonal'' 0 = make_random_csr counter_lib 1 1 1 ''uniform'' 0 \<and>
   (\<exists>A. make_random_csr counter_lib 1 1 1 ''diagonal'' 0 = Inr A)"
proof -
  have h: "''diagonal'' \<noteq> ''band''" "''diagonal'' \<noteq> ''blockdiag''" "(1 :: int) \<le> 1"
    by simp_all
  from unknown_pattern_is_uniform [OF h(1,2,3,3), of counter_lib 1 0] h
  show ?thesis by blast
qed

text \<open>
  C2 fails for the block-diagonal pattern when there are fewer than 8 columns and more
  rows than columns. With \<open>m = 2\<close> and \<open>k = 1\<close>, row 1 has the window \<open>lo = 1\<close>,
  \<open>hi = 0\<close>: the builder constructs \<open>std::uniform_int_distribution<int>(1, 0)\<close>, whatever
  the density, the seed and the random library.
\<close>

theorem blockdiag_empty_window:
  fixes L :: "('g, 'v) random_lib"
  shows "make_random_csr L 2 1 density ''blockdiag'' seed = Inl (Bad_dist_range 1 0)"
proof -
  let ?s0 = "(seed_engine L seed, [[], []] :: int list list, [[], []] :: 'v list list)"
  have u: "[0..1] = [0, 1 :: int]" by (simp add: upto.simps)
  have b0: "blockdiag_row L 1 density 8 1 1 0 ?s0 = window_row L 1 density 0 0 0 ?s0"
    by (simp add: blockdiag_row_def Let_def idiv_def)
  have b1: "blockdiag_row L 1 density 8 1 1 1 s = Inl (Bad_dist_range 1 0)" for s
    by (simp add: blockdiag_row_def Let_def idiv_def window_row_error)
  have "\<exists>s. window_row L 1 density 0 0 0 ?s0 = Inr s"
    by (simp add: window_row_def Let_def split: prod.splits)
  then obtain s where w0: "window_row L 1 density 0 0 0 ?s0 = Inr s" ..
  have "for_rows (blockdiag_row L 1 density 8 1 1) [0..1] ?s0 = Inl (Bad_dist_range 1 0)"
    unfolding u by (simp add: b0 w0 b1)
  then show ?thesis
    by (simp add: make_random_csr_def Let_def idiv_def eval_nat_numeral)
qed

section \<open>CSR builder: the 4 x 4 scenario\<close>




lemma scenario_nnz: "nat (max 4 (cpp_round (real_of_int 4 * real_of_int 4 * 1))) = 16"
  by (simp add: cpp_round_def)





end
